theory Spec2Isabelle
  imports Complex_Main "HOL-Library.Sublist" "HOL-Library.Word"
begin

section \<open>Python values used by streaming-speech-translation.py\<close>

text \<open>
  A Python 3 \<^verbatim>\<open>str\<close> is a sequence of Unicode code points, so \<^verbatim>\<open>len\<close> counts code
  points; a \<^verbatim>\<open>bytes\<close> object is a sequence of octets. A string literal of the source is
  written \<open>lit ''...''\<close>.
\<close>

type_synonym pystr = "nat list"
type_synonym bytes = "8 word list"

definition py_ord :: "char \<Rightarrow> nat" where
  "py_ord c = of_char c"

definition lit :: "string \<Rightarrow> pystr" where
  "lit s = map py_ord s"

text \<open>\<^verbatim>\<open>str(n)\<close> for an integer: decimal digits, with a minus sign for negatives.\<close>

fun digits :: "nat \<Rightarrow> pystr" where
  "digits n = (if n < 10 then [48 + n] else digits (n div 10) @ [48 + n mod 10])"

declare digits.simps [simp del]

definition str_int :: "int \<Rightarrow> pystr" where
  "str_int i = (if i < 0 then py_ord CHR ''-'' # digits (nat (- i)) else digits (nat i))"

text \<open>\<^verbatim>\<open>s * n\<close> on a string: \<open>n\<close> copies of \<open>s\<close>, the empty string when \<open>n \<le> 0\<close>.\<close>

definition str_mul :: "pystr \<Rightarrow> int \<Rightarrow> pystr" where
  "str_mul s n = (if n \<le> 0 then [] else concat (replicate (nat n) s))"

text \<open>\<^verbatim>\<open>b''.join(data)\<close>.\<close>

definition join :: "bytes list \<Rightarrow> bytes" where
  "join data = concat data"


section \<open>The exit keyword: \<^verbatim>\<open>re.search(r'\b(exit|quit)\b', transcript, re.I)\<close>\<close>

text \<open>
  The pattern is a \<^verbatim>\<open>str\<close>, so matching is Unicode matching. The Unicode character
  database is not part of the program; its answers outside ASCII are taken as a
  parameter, inside ASCII they are written out.
\<close>

record unicode_db =
  isalnum :: "nat \<Rightarrow> bool"
  tolower :: "nat \<Rightarrow> nat"

definition ascii_alnum :: "nat \<Rightarrow> bool" where
  "ascii_alnum c \<longleftrightarrow> (48 \<le> c \<and> c \<le> 57) \<or> (65 \<le> c \<and> c \<le> 90) \<or> (97 \<le> c \<and> c \<le> 122)"

text \<open>\<^verbatim>\<open>\w\<close>: alphanumeric or underscore.\<close>

definition is_word :: "unicode_db \<Rightarrow> nat \<Rightarrow> bool" where
  "is_word db c \<longleftrightarrow> (if c < 128 then ascii_alnum c \<or> c = 95 else isalnum db c)"

definition lower_uni :: "unicode_db \<Rightarrow> nat \<Rightarrow> nat" where
  "lower_uni db c = (if c < 128 then (if 65 \<le> c \<and> c \<le> 90 then c + 32 else c) else tolower db c)"

text \<open>
  The regex compiler's table of extra case equivalents, restricted to the letters of
  the pattern: the only one with an entry is \<open>i\<close>, which also matches the dotless i.
\<close>

definition extra_cases :: "nat \<Rightarrow> nat list" where
  "extra_cases lo = (if lo = 0x69 then [0x131] else [])"

text \<open>One literal of the pattern (already lower case) against one character of the subject.\<close>

definition lit_ignore :: "unicode_db \<Rightarrow> nat \<Rightarrow> nat \<Rightarrow> bool" where
  "lit_ignore db lo ch \<longleftrightarrow> lower_uni db ch \<in> set (lo # extra_cases lo)"

fun match_literal :: "unicode_db \<Rightarrow> pystr \<Rightarrow> pystr \<Rightarrow> bool" where
  "match_literal db [] s = True"
| "match_literal db (p # ps) [] = False"
| "match_literal db (p # ps) (c # cs) = (lit_ignore db p c \<and> match_literal db ps cs)"

text \<open>
  \<^verbatim>\<open>\b\<close> at position \<open>i\<close>: exactly one of the character before and the character at \<open>i\<close>
  is a word character; outside the string counts as not a word character.
\<close>

definition at_boundary :: "unicode_db \<Rightarrow> pystr \<Rightarrow> nat \<Rightarrow> bool" where
  "at_boundary db s i \<longleftrightarrow>
     ((0 < i \<and> i \<le> length s \<and> is_word db (s ! (i - 1))) \<noteq> (i < length s \<and> is_word db (s ! i)))"

definition match_at :: "unicode_db \<Rightarrow> pystr \<Rightarrow> nat \<Rightarrow> bool" where
  "match_at db s i \<longleftrightarrow>
     at_boundary db s i \<and>
     ((match_literal db (lit ''exit'') (drop i s) \<and> at_boundary db s (i + 4)) \<or>
      (match_literal db (lit ''quit'') (drop i s) \<and> at_boundary db s (i + 4)))"

text \<open>\<^verbatim>\<open>re.search\<close> tries every start position from left to right.\<close>

definition re_search_exit_quit :: "unicode_db \<Rightarrow> pystr \<Rightarrow> bool" where
  "re_search_exit_quit db s \<longleftrightarrow> list_ex (match_at db s) [0..<Suc (length s)]"





section \<open>\<^verbatim>\<open>html.escape\<close> and \<^verbatim>\<open>html.unescape\<close>\<close>

definition replace_char :: "nat \<Rightarrow> pystr \<Rightarrow> pystr \<Rightarrow> pystr" where
  "replace_char c r s = concat (map (\<lambda>x. if x = c then r else [x]) s)"

text \<open>\<^verbatim>\<open>html.escape(s)\<close> with the default \<^verbatim>\<open>quote=True\<close>: five replacements, the ampersand first.\<close>

definition html_escape :: "pystr \<Rightarrow> pystr" where
  "html_escape s =
     replace_char (py_ord CHR 0x27) (lit ''&#x27;'')
       (replace_char (py_ord CHR 0x22) (lit ''&quot;'')
         (replace_char (py_ord CHR ''>'') (lit ''&gt;'')
           (replace_char (py_ord CHR ''<'') (lit ''&lt;'')
             (replace_char (py_ord CHR ''&'') (lit ''&amp;'') s))))"

definition is_digit :: "nat \<Rightarrow> bool" where
  "is_digit c \<longleftrightarrow> 48 \<le> c \<and> c \<le> 57"

definition is_hexdigit :: "nat \<Rightarrow> bool" where
  "is_hexdigit c \<longleftrightarrow> is_digit c \<or> (97 \<le> c \<and> c \<le> 102) \<or> (65 \<le> c \<and> c \<le> 70)"

text \<open>The class \<^verbatim>\<open>[^\t\n\f <&#;]\<close>.\<close>

definition name_char :: "nat \<Rightarrow> bool" where
  "name_char c \<longleftrightarrow> c \<notin> {9, 10, 12, 32, 60, 38, 35, 59}"

text \<open>The optional \<^verbatim>\<open>;\<close> that closes each alternative.\<close>

definition opt_semi :: "pystr \<Rightarrow> pystr" where
  "opt_semi s = (case s of [] \<Rightarrow> [] | c # _ \<Rightarrow> if c = 59 then [59] else [])"

text \<open>
  The group of \<^verbatim>\<open>_charref\<close> matched directly after an ampersand, if any:
  \<^verbatim>\<open>#[0-9]+;?\<close>, else \<^verbatim>\<open>#[xX][0-9a-fA-F]+;?\<close>, else \<^verbatim>\<open>[^\t\n\f <&#;]{1,32};?\<close>.
  The repetitions are greedy and nothing follows the group, so each takes all it can.
\<close>

definition charref_match :: "pystr \<Rightarrow> pystr option" where
  "charref_match s =
     (case s of
        [] \<Rightarrow> None
      | c # r \<Rightarrow>
          if c = 35 then
            (let ds = takeWhile is_digit r in
             if ds \<noteq> [] then Some (c # ds @ opt_semi (drop (length ds) r))
             else (case r of
                     [] \<Rightarrow> None
                   | x # r' \<Rightarrow>
                       if x = 120 \<or> x = 88 then
                         (let hs = takeWhile is_hexdigit r' in
                          if hs \<noteq> [] then Some (c # x # hs @ opt_semi (drop (length hs) r'))
                          else None)
                       else None))
          else
            (let ns = takeWhile name_char (take 32 s) in
             if ns \<noteq> [] then Some (ns @ opt_semi (drop (length ns) s)) else None))"

definition digit_val :: "nat \<Rightarrow> nat" where
  "digit_val c = (if is_digit c then c - 48 else if 97 \<le> c \<and> c \<le> 102 then c - 87 else c - 55)"

text \<open>\<^verbatim>\<open>int(ds, base)\<close> on a string of digits of that base.\<close>

definition int_of_digits :: "nat \<Rightarrow> pystr \<Rightarrow> nat" where
  "int_of_digits base ds = foldl (\<lambda>a d. a * base + digit_val d) 0 ds"

definition rstrip_semi :: "pystr \<Rightarrow> pystr" where
  "rstrip_semi s = rev (dropWhile (\<lambda>c. c = 59) (rev s))"

definition invalid_charrefs :: "nat \<Rightarrow> pystr option" where
  "invalid_charrefs num =
     map_of
       [(0x00, [0xfffd]), (0x0d, [0x0d]), (0x80, [0x20ac]), (0x81, [0x81]), (0x82, [0x201a]),
        (0x83, [0x0192]), (0x84, [0x201e]), (0x85, [0x2026]), (0x86, [0x2020]), (0x87, [0x2021]),
        (0x88, [0x02c6]), (0x89, [0x2030]), (0x8a, [0x0160]), (0x8b, [0x2039]), (0x8c, [0x0152]),
        (0x8d, [0x8d]), (0x8e, [0x017d]), (0x8f, [0x8f]), (0x90, [0x90]), (0x91, [0x2018]),
        (0x92, [0x2019]), (0x93, [0x201c]), (0x94, [0x201d]), (0x95, [0x2022]), (0x96, [0x2013]),
        (0x97, [0x2014]), (0x98, [0x02dc]), (0x99, [0x2122]), (0x9a, [0x0161]), (0x9b, [0x203a]),
        (0x9c, [0x0153]), (0x9d, [0x9d]), (0x9e, [0x017e]), (0x9f, [0x0178])] num"

definition invalid_codepoint :: "nat \<Rightarrow> bool" where
  "invalid_codepoint num \<longleftrightarrow>
     (0x1 \<le> num \<and> num \<le> 0x8) \<or> (0xe \<le> num \<and> num \<le> 0x1f) \<or> (0x7f \<le> num \<and> num \<le> 0x9f) \<or>
     (0xfdd0 \<le> num \<and> num \<le> 0xfdef) \<or> num = 0xb \<or>
     (num \<le> 0x10ffff \<and> (num mod 0x10000 = 0xfffe \<or> num mod 0x10000 = 0xffff))"

text \<open>
  The \<^verbatim>\<open>for x in range(len(s)-1, 1, -1)\<close> loop of \<^verbatim>\<open>_replace_charref\<close> with its
  \<^verbatim>\<open>else\<close> branch: the longest proper prefix of at least two characters that is a
  known name, else the text is left as it was.
\<close>

fun longest_name :: "(pystr \<rightharpoonup> pystr) \<Rightarrow> pystr \<Rightarrow> nat \<Rightarrow> pystr" where
  "longest_name html5 s x =
     (if x \<le> 1 then py_ord CHR ''&'' # s
      else (case html5 (take x s) of
              Some r \<Rightarrow> r @ drop x s
            | None \<Rightarrow> longest_name html5 s (x - 1)))"

declare longest_name.simps [simp del]

text \<open>
  \<^verbatim>\<open>_replace_charref\<close> on the matched group. The table \<^verbatim>\<open>html.entities.html5\<close> of
  named references is a parameter. The group is never empty, and after \<^verbatim>\<open>#\<close> it
  has at least one more character.
\<close>

definition replace_charref :: "(pystr \<rightharpoonup> pystr) \<Rightarrow> pystr \<Rightarrow> pystr" where
  "replace_charref html5 s =
     (case s of
        [] \<Rightarrow> []
      | c # r \<Rightarrow>
          if c = 35 then
            (let num = (case r of
                          [] \<Rightarrow> 0
                        | x # r' \<Rightarrow>
                            if x = 120 \<or> x = 88 then int_of_digits 16 (rstrip_semi r')
                            else int_of_digits 10 (rstrip_semi r))
             in case invalid_charrefs num of
                  Some rep \<Rightarrow> rep
                | None \<Rightarrow>
                    if (0xD800 \<le> num \<and> num \<le> 0xDFFF) \<or> num > 0x10FFFF then [0xFFFD]
                    else if invalid_codepoint num then []
                    else [num])
          else
            (case html5 s of
               Some rep \<Rightarrow> rep
             | None \<Rightarrow> longest_name html5 s (length s - 1)))"

text \<open>\<^verbatim>\<open>_charref.sub(_replace_charref, s)\<close>: one pass from the left, matches do not overlap.\<close>

fun charref_sub :: "(pystr \<rightharpoonup> pystr) \<Rightarrow> pystr \<Rightarrow> pystr" where
  "charref_sub html5 [] = []"
| "charref_sub html5 (c # cs) =
     (if c = 38 then
        (case charref_match cs of
           Some g \<Rightarrow> replace_charref html5 g @ charref_sub html5 (drop (length g) cs)
         | None \<Rightarrow> c # charref_sub html5 cs)
      else c # charref_sub html5 cs)"

definition html_unescape :: "(pystr \<rightharpoonup> pystr) \<Rightarrow> pystr \<Rightarrow> pystr" where
  "html_unescape html5 s = (if 38 \<notin> set s then s else charref_sub html5 s)"


section \<open>The capture stream: \<^verbatim>\<open>ResumableMicrophoneStream\<close>\<close>

text \<open>
  The fields of the stream that the generator reads and writes. The queue \<^verbatim>\<open>_buff\<close> is
  a list with the next item to leave at its head; \<open>None\<close> is the sentinel that
  \<^verbatim>\<open>__exit__\<close> enqueues.
\<close>

record stream =
  closed_flag :: bool
  start_time :: int
  buff :: "bytes option list"

definition STREAMING_LIMIT :: int where
  "STREAMING_LIMIT = 55000"

text \<open>\<^verbatim>\<open>_fill_buffer\<close> and the \<^verbatim>\<open>put(None)\<close> of \<^verbatim>\<open>__exit__\<close>: an item joins the queue at its end.\<close>

definition put :: "bytes option \<Rightarrow> stream \<Rightarrow> stream" where
  "put x s = s\<lparr>buff := buff s @ [x]\<rparr>"

definition fill_buffer :: "bytes \<Rightarrow> stream \<Rightarrow> stream" where
  "fill_buffer in_data s = put (Some in_data) s"

text \<open>
  The inner \<^verbatim>\<open>while True\<close> loop: non-blocking \<^verbatim>\<open>get\<close>s until the queue is empty
  (\<open>Some data\<close>: the loop breaks and the generator goes on to yield) or the sentinel is
  taken (\<open>None\<close>: the generator returns). The second component is what is left in the queue.
\<close>

fun drain :: "bytes list \<Rightarrow> bytes option list \<Rightarrow> bytes list option \<times> bytes option list" where
  "drain data [] = (Some data, [])"
| "drain data (None # q) = (None, q)"
| "drain data (Some chunk # q) = drain (data @ [chunk]) q"

text \<open>
  A generator is a coroutine. Its frame is suspended at the top of the outer loop
  (fresh, or after a \<^verbatim>\<open>yield\<close>), waits inside the blocking \<^verbatim>\<open>get\<close> on an empty queue,
  or has returned.
\<close>

datatype frame = LoopTop | InGet | Finished

datatype outcome = Yield "bytes list" | Stop | Blocked

text \<open>
  From the blocking \<^verbatim>\<open>get\<close> to the \<^verbatim>\<open>yield\<close>. \<open>Yield data\<close> carries the list \<^verbatim>\<open>data\<close>;
  the value handed to the consumer is \<open>join data\<close>.
\<close>

definition get_and_drain :: "stream \<Rightarrow> outcome \<times> frame \<times> stream" where
  "get_and_drain s =
     (case buff s of
        [] \<Rightarrow> (Blocked, InGet, s)
      | None # q \<Rightarrow> (Stop, Finished, s\<lparr>buff := q\<rparr>)
      | Some chunk # q \<Rightarrow>
          (case drain [chunk] q of
             (None, q') \<Rightarrow> (Stop, Finished, s\<lparr>buff := q'\<rparr>)
           | (Some data, q') \<Rightarrow> (Yield data, LoopTop, s\<lparr>buff := q'\<rparr>)))"

text \<open>
  One resumption of the generator, up to its next \<^verbatim>\<open>yield\<close>, its return, or the
  blocking \<^verbatim>\<open>get\<close> on an empty queue. \<open>limit\<close> stands for \<^verbatim>\<open>STREAMING_LIMIT\<close>; \<open>t1\<close> and
  \<open>t2\<close> are what the two calls of \<^verbatim>\<open>get_current_time()\<close> at the top of the loop return.
\<close>

definition generator_step :: "int \<Rightarrow> int \<Rightarrow> int \<Rightarrow> frame \<times> stream \<Rightarrow> outcome \<times> frame \<times> stream" where
  "generator_step limit t1 t2 fs =
     (case fs of
        (Finished, s) \<Rightarrow> (Stop, Finished, s)
      | (InGet, s) \<Rightarrow> get_and_drain s
      | (LoopTop, s) \<Rightarrow>
          if closed_flag s then (Stop, Finished, s)
          else if t1 - start_time s > limit then (Stop, Finished, s\<lparr>start_time := t2\<rparr>)
          else get_and_drain s)"

text \<open>
  A recognition session: the stream, the frame of the session's generator, and the
  \<^verbatim>\<open>data\<close> lists it has yielded so far. The capture callback and the transcript
  processor run beside the generator; the queue is thread-safe, so a run is an
  interleaving of these actions.
\<close>

record session =
  strm :: stream
  gen :: frame
  batches :: "bytes list list"

datatype action =
    Put "bytes option"
  | SetClosed
  | Resume int int

fun exec :: "int \<Rightarrow> action \<Rightarrow> session \<Rightarrow> session" where
  "exec limit (Put x) g = g\<lparr>strm := put x (strm g)\<rparr>"
| "exec limit SetClosed g = g\<lparr>strm := (strm g)\<lparr>closed_flag := True\<rparr>\<rparr>"
| "exec limit (Resume t1 t2) g =
     (case generator_step limit t1 t2 (gen g, strm g) of
        (Yield data, f, s) \<Rightarrow> g\<lparr>strm := s, gen := f, batches := batches g @ [data]\<rparr>
      | (Stop, f, s) \<Rightarrow> g\<lparr>strm := s, gen := f\<rparr>
      | (Blocked, f, s) \<Rightarrow> g\<lparr>strm := s, gen := f\<rparr>)"

fun run :: "int \<Rightarrow> action list \<Rightarrow> session \<Rightarrow> session" where
  "run limit [] g = g"
| "run limit (a # as) g = run limit as (exec limit a g)"

text \<open>\<^verbatim>\<open>stream.generator()\<close> in \<^verbatim>\<open>main\<close>: a fresh generator over the same stream.\<close>

definition generator :: "stream \<Rightarrow> session" where
  "generator s = \<lparr>strm = s, gen = LoopTop, batches = []\<rparr>"

text \<open>The units handed to the recognizer, and the chunks they are made of.\<close>

definition delivered_units :: "session \<Rightarrow> bytes list" where
  "delivered_units g = map join (batches g)"

definition delivered_chunks :: "session \<Rightarrow> bytes list" where
  "delivered_chunks g = concat (batches g)"

text \<open>What the actions of a run enqueue, and the chunks in a queue up to its first sentinel.\<close>

fun puts :: "action list \<Rightarrow> bytes option list" where
  "puts [] = []"
| "puts (Put x # as) = x # puts as"
| "puts (a # as) = puts as"

fun until_sentinel :: "bytes option list \<Rightarrow> bytes list" where
  "until_sentinel [] = []"
| "until_sentinel (None # q) = []"
| "until_sentinel (Some chunk # q) = chunk # until_sentinel q"

text \<open>A run in which the stream stays live: chunks arrive and the generator is resumed.\<close>

fun live :: "action \<Rightarrow> bool" where
  "live (Put None) = False"
| "live (Put (Some chunk)) = True"
| "live SetClosed = False"
| "live (Resume t1 t2) = True"


section \<open>The pipeline: synthesis, translation, the transcript processor\<close>

text \<open>
  What the process does to the outside, in order: requests to the backends, file
  writes, lines printed, text written to \<^verbatim>\<open>stdout\<close>, and calls of \<^verbatim>\<open>playsound\<close> with their
  \<^verbatim>\<open>block\<close> argument.
\<close>

datatype event =
    Translate pystr pystr
  | SynthesizeSpeech pystr pystr
  | WriteFile pystr bytes
  | Print pystr
  | PrintFloat real
  | StdoutWrite pystr
  | Playsound pystr bool

text \<open>
  The collaborators: the Unicode database and the entity table of the standard
  library, the translation and synthesis backends, the duration \<^verbatim>\<open>MP3(file).info.length\<close>
  of a file with given contents, and the wall clock. \<open>clock k\<close> is what \<^verbatim>\<open>time.time()\<close>
  returns once the process has performed \<open>k\<close> of the events above, so the time a call
  takes is the difference of the clock across it.
\<close>

record env =
  ucd :: unicode_db
  html5 :: "pystr \<rightharpoonup> pystr"
  translate :: "pystr \<Rightarrow> pystr \<Rightarrow> pystr"
  synthesize_speech :: "pystr \<Rightarrow> pystr \<Rightarrow> bytes"
  mp3_length :: "bytes \<Rightarrow> real"
  clock :: "nat \<Rightarrow> real"

text \<open>The globals \<^verbatim>\<open>RECORD_INC\<close> and \<^verbatim>\<open>PLAY_INC\<close>, the stream, the files written, the events so far.\<close>

record world =
  RECORD_INC :: int
  PLAY_INC :: int
  mic :: stream
  files :: "pystr \<rightharpoonup> bytes"
  trace :: "event list"

datatype error = FileNotFoundError pystr

definition emit :: "event \<Rightarrow> world \<Rightarrow> world" where
  "emit e w = w\<lparr>trace := trace w @ [e]\<rparr>"

definition time_time :: "env \<Rightarrow> world \<Rightarrow> real" where
  "time_time env w = clock env (length (trace w))"

definition output_name :: "int \<Rightarrow> pystr" where
  "output_name n = lit ''output_'' @ str_int n @ lit ''.mp3''"

definition write_file :: "pystr \<Rightarrow> bytes \<Rightarrow> world \<Rightarrow> world" where
  "write_file name content w = (emit (WriteFile name content) w)\<lparr>files := (files w)(name \<mapsto> content)\<rparr>"

text \<open>
  \<^verbatim>\<open>synthesize_text\<close>. The loop \<^verbatim>\<open>while time.time() - start < mp3Length: PLAY_INC += 1; break\<close>
  leaves at the \<^verbatim>\<open>break\<close> of its first iteration, so its body runs once when the
  condition holds on entry and not at all otherwise.
\<close>

definition synthesize_text :: "env \<Rightarrow> pystr \<Rightarrow> pystr \<Rightarrow> world \<Rightarrow> error + world" where
  "synthesize_text env text langTo w0 =
     (let audio_content = synthesize_speech env text langTo;
          w1 = emit (SynthesizeSpeech text langTo) w0;
          w2 = write_file (output_name (RECORD_INC w1)) audio_content w1;
          w3 = emit (Print (lit ''Audio content written to file output_'' @ str_int (RECORD_INC w2)
                              @ lit ''.mp3'')) w2;
          w4 = emit (Print (lit ''Record increment: '' @ str_int (RECORD_INC w3))) w3
      in if PLAY_INC w4 = RECORD_INC w4 then
           (case files w4 (output_name (PLAY_INC w4)) of
              None \<Rightarrow> Inl (FileNotFoundError (output_name (PLAY_INC w4)))
            | Some mp3 \<Rightarrow>
                (let mp3Length = mp3_length env mp3;
                     w5 = emit (PrintFloat mp3Length) w4;
                     start = time_time env w5;
                     w6 = emit (Playsound (output_name (PLAY_INC w5)) False) w5;
                     w7 = (if time_time env w6 - start < mp3Length
                           then w6\<lparr>PLAY_INC := PLAY_INC w6 + 1\<rparr> else w6)
                 in Inr (emit (Print (lit ''Play increment: '' @ str_int (PLAY_INC w7))) w7)))
         else Inr w4)"

definition translate_text :: "env \<Rightarrow> pystr \<Rightarrow> pystr \<Rightarrow> pystr \<Rightarrow> world \<Rightarrow> error + world" where
  "translate_text env text translateLang langTo w0 =
     (let w1 = emit (Translate text translateLang) w0;
          translation = html_unescape (html5 env) (translate env text translateLang)
      in case synthesize_text env translation langTo w1 of
           Inl e \<Rightarrow> Inl e
         | Inr w2 \<Rightarrow> Inr (emit (Print (lit ''Translation: '' @ translation)) w2))"

text \<open>A streaming recognition response, as far as \<^verbatim>\<open>listen_loop\<close> reads it.\<close>

record alternative =
  transcript :: pystr

record result =
  alternatives :: "alternative list"
  is_final :: bool

record response =
  results :: "result list"

text \<open>The filter \<^verbatim>\<open>r.results and r.results[0].alternatives\<close> of the generator expression.\<close>

definition has_alternatives :: "response \<Rightarrow> bool" where
  "has_alternatives r = (case results r of [] \<Rightarrow> False | res # _ \<Rightarrow> alternatives res \<noteq> [])"

text \<open>
  The \<^verbatim>\<open>for\<close> loop of \<^verbatim>\<open>listen_loop\<close> over the filtered responses; \<open>num_chars_printed\<close> is
  carried from one iteration to the next. The \<^verbatim>\<open>break\<close> after the keyword leaves the
  remaining responses unread.
\<close>

fun listen_body :: "env \<Rightarrow> pystr \<Rightarrow> pystr \<Rightarrow> response list \<Rightarrow> int \<Rightarrow> world \<Rightarrow> error + world" where
  "listen_body env translateLang langTo [] num_chars_printed w = Inr w"
| "listen_body env translateLang langTo (r # rs) num_chars_printed w =
     (case results r of
        [] \<Rightarrow> listen_body env translateLang langTo rs num_chars_printed w
      | res # _ \<Rightarrow>
          (case alternatives res of
             [] \<Rightarrow> listen_body env translateLang langTo rs num_chars_printed w
           | top_alternative # _ \<Rightarrow>
               (let t = transcript top_alternative;
                    overwrite_chars = str_mul (lit '' '') (num_chars_printed - int (length t))
                in if \<not> is_final res then
                     listen_body env translateLang langTo rs (int (length t))
                       (emit (StdoutWrite (t @ overwrite_chars @ [13])) w)
                   else
                     (let w1 = emit (Print (t @ overwrite_chars)) w
                      in if re_search_exit_quit (ucd env) t then
                           Inr ((emit (Print (lit ''Exiting..'')) w1)
                                  \<lparr>mic := (mic w1)\<lparr>closed_flag := True\<rparr>\<rparr>)
                         else
                           (case translate_text env t translateLang langTo w1 of
                              Inl e \<Rightarrow> Inl e
                            | Inr w2 \<Rightarrow>
                                listen_body env translateLang langTo rs 0
                                  (w2\<lparr>RECORD_INC := RECORD_INC w2 + 1\<rparr>))))))"

definition listen_loop :: "env \<Rightarrow> response list \<Rightarrow> pystr \<Rightarrow> pystr \<Rightarrow> world \<Rightarrow> error + world" where
  "listen_loop env responses translateLang langTo w =
     listen_body env translateLang langTo (filter has_alternatives responses) 0 w"

text \<open>
  The loop \<^verbatim>\<open>while not stream.closed\<close> of \<^verbatim>\<open>main\<close>. The recognizer is a collaborator:
  \<open>sessions\<close> lists, session by session, the responses it returns. When the list is
  used up the result is the state the execution has reached by then.
\<close>

fun main_loop :: "env \<Rightarrow> response list list \<Rightarrow> pystr \<Rightarrow> pystr \<Rightarrow> world \<Rightarrow> error + world" where
  "main_loop env [] translateLang langTo w = Inr w"
| "main_loop env (responses # sessions) translateLang langTo w =
     (if closed_flag (mic w) then Inr w
      else (case listen_loop env responses translateLang langTo w of
              Inl e \<Rightarrow> Inl e
            | Inr w' \<Rightarrow> main_loop env sessions translateLang langTo w'))"

text \<open>The file names handed to \<^verbatim>\<open>playsound\<close>, and the requests sent to the synthesis backend.\<close>

fun played :: "event list \<Rightarrow> pystr list" where
  "played [] = []"
| "played (Playsound name block # es) = name # played es"
| "played (e # es) = played es"

fun synthesis_requests :: "event list \<Rightarrow> (pystr \<times> pystr) list" where
  "synthesis_requests [] = []"
| "synthesis_requests (SynthesizeSpeech text lang # es) = (text, lang) # synthesis_requests es"
| "synthesis_requests (e # es) = synthesis_requests es"

fun translation_requests :: "event list \<Rightarrow> (pystr \<times> pystr) list" where
  "translation_requests [] = []"
| "translation_requests (Translate text lang # es) = (text, lang) # translation_requests es"
| "translation_requests (e # es) = translation_requests es"


section \<open>Notions used in the statements\<close>

text \<open>
  Inside a call of \<^verbatim>\<open>synthesize_text\<close> that takes the playback branch, \<^verbatim>\<open>start\<close> is read
  after five events of the call and the loop condition after the sixth, the call of
  \<^verbatim>\<open>playsound\<close>.
\<close>

definition start_reading :: "env \<Rightarrow> world \<Rightarrow> real" where
  "start_reading env w = clock env (length (trace w) + 5)"

definition elapsed_at_check :: "env \<Rightarrow> world \<Rightarrow> real" where
  "elapsed_at_check env w = clock env (length (trace w) + 6) - start_reading env w"

definition clip_length :: "env \<Rightarrow> pystr \<Rightarrow> pystr \<Rightarrow> real" where
  "clip_length env text langTo = mp3_length env (synthesize_speech env text langTo)"

text \<open>The value of the local variable \<^verbatim>\<open>translation\<close> in \<^verbatim>\<open>translate_text\<close>.\<close>

definition translation_of :: "env \<Rightarrow> pystr \<Rightarrow> pystr \<Rightarrow> pystr" where
  "translation_of env text translateLang = html_unescape (html5 env) (translate env text translateLang)"

text \<open>The events of a call of \<^verbatim>\<open>synthesize_text\<close>: those of every call, and those of a call that plays.\<close>

definition base_events :: "env \<Rightarrow> pystr \<Rightarrow> pystr \<Rightarrow> int \<Rightarrow> event list" where
  "base_events env text langTo n =
     [SynthesizeSpeech text langTo,
      WriteFile (output_name n) (synthesize_speech env text langTo),
      Print (lit ''Audio content written to file output_'' @ str_int n @ lit ''.mp3''),
      Print (lit ''Record increment: '' @ str_int n)]"

definition play_events :: "env \<Rightarrow> pystr \<Rightarrow> pystr \<Rightarrow> int \<Rightarrow> int \<Rightarrow> event list" where
  "play_events env text langTo n p =
     base_events env text langTo n @
     [PrintFloat (clip_length env text langTo),
      Playsound (output_name n) False,
      Print (lit ''Play increment: '' @ str_int p)]"

definition advanced :: "env \<Rightarrow> pystr \<Rightarrow> pystr \<Rightarrow> world \<Rightarrow> int" where
  "advanced env text langTo w =
     (if elapsed_at_check env w < clip_length env text langTo then PLAY_INC w + 1 else PLAY_INC w)"

text \<open>What the loop writes for a transcript when \<open>n\<close> characters are on the line.\<close>

definition overwrite_chars :: "int \<Rightarrow> pystr \<Rightarrow> pystr" where
  "overwrite_chars n t = str_mul (lit '' '') (n - int (length t))"

text \<open>Responses, an environment and a state to evaluate the functions on.\<close>

definition interim_response :: "pystr \<Rightarrow> response" where
  "interim_response t = \<lparr>results = [\<lparr>alternatives = [\<lparr>transcript = t\<rparr>], is_final = False\<rparr>]\<rparr>"

definition final_response :: "pystr \<Rightarrow> response" where
  "final_response t = \<lparr>results = [\<lparr>alternatives = [\<lparr>transcript = t\<rparr>], is_final = True\<rparr>]\<rparr>"

definition empty_response :: response where
  "empty_response = \<lparr>results = []\<rparr>"

definition bare_response :: response where
  "bare_response = \<lparr>results = [\<lparr>alternatives = [], is_final = True\<rparr>]\<rparr>"

definition ascii_db :: unicode_db where
  "ascii_db = \<lparr>isalnum = (\<lambda>c. False), tolower = (\<lambda>c. c)\<rparr>"

definition entities :: "pystr \<rightharpoonup> pystr" where
  "entities = map_of [(lit ''amp;'', lit ''&''), (lit ''lt;'', lit ''<''), (lit ''gt;'', lit ''>''),
                      (lit ''quot;'', [0x22])]"

text \<open>
  A backend that echoes the text, clips of \<open>len\<close> seconds, and a clock on which every
  event takes a millisecond.
\<close>

definition test_env :: "real \<Rightarrow> env" where
  "test_env len =
     \<lparr>ucd = ascii_db, html5 = entities, translate = (\<lambda>text lang. text),
      synthesize_speech = (\<lambda>text lang. []), mp3_length = (\<lambda>audio. len),
      clock = (\<lambda>k. real k / 1000)\<rparr>"

definition open_mic :: stream where
  "open_mic = \<lparr>closed_flag = False, start_time = 0, buff = []\<rparr>"

definition world0 :: "int \<Rightarrow> int \<Rightarrow> world" where
  "world0 r p = \<lparr>RECORD_INC = r, PLAY_INC = p, mic = open_mic, files = Map.empty, trace = []\<rparr>"


text \<open>
  Two properties of a state, relative to a value \<open>p\<close> of \<^verbatim>\<open>PLAY_INC\<close> and a list of file names
  already handed to \<^verbatim>\<open>playsound\<close>: playback is behind and nothing more was played; what was
  played since is \<^verbatim>\<open>output_p\<close>, \<^verbatim>\<open>output_(p+1)\<close>, ... without a gap.
\<close>

definition behind :: "int \<Rightarrow> pystr list \<Rightarrow> world \<Rightarrow> bool" where
  "behind p names w \<longleftrightarrow> PLAY_INC w = p \<and> p < RECORD_INC w \<and> played (trace w) = names"

definition in_order :: "int \<Rightarrow> pystr list \<Rightarrow> world \<Rightarrow> bool" where
  "in_order p names w \<longleftrightarrow>
     (\<exists>k. played (trace w) = names @ map (\<lambda>j. output_name (p + int j)) [0..<k] \<and>
          (PLAY_INC w = p + int k \<or> (PLAY_INC w + 1 = p + int k \<and> PLAY_INC w < RECORD_INC w)))"


text \<open>
  The entries of the entity table that undo \<^verbatim>\<open>html.escape\<close>, and what \<^verbatim>\<open>html.escape\<close> does to one
  character.
\<close>

definition standard_entities :: "(pystr \<rightharpoonup> pystr) \<Rightarrow> bool" where
  "standard_entities tbl \<longleftrightarrow>
     tbl (lit ''amp;'') = Some (lit ''&'') \<and> tbl (lit ''lt;'') = Some (lit ''<'') \<and>
     tbl (lit ''gt;'') = Some (lit ''>'') \<and> tbl (lit ''quot;'') = Some [0x22]"

definition escape_char :: "nat \<Rightarrow> pystr" where
  "escape_char c =
     (if c = 38 then lit ''&amp;'' else if c = 60 then lit ''&lt;'' else if c = 62 then lit ''&gt;''
      else if c = 34 then lit ''&quot;'' else if c = 39 then lit ''&#x27;'' else [c])"


text \<open>
  A session over a stream that is open and whose queue holds chunks only; a stream and
  runs to evaluate the generator on.
\<close>

definition live_session :: "session \<Rightarrow> bool" where
  "live_session g \<longleftrightarrow> \<not> closed_flag (strm g) \<and> (\<exists>cs. buff (strm g) = map Some cs)"

definition chunks_stream :: "bytes list \<Rightarrow> stream" where
  "chunks_stream cs = \<lparr>closed_flag = False, start_time = 0, buff = map Some cs\<rparr>"

definition session_one :: "action list" where
  "session_one = [Resume 100 100, Put (Some [2]), Resume 55000 55000, Put (Some [3]), Resume 55001 55002]"

definition session_two :: "action list" where
  "session_two = [Resume 55003 55003]"

definition sentinel_run :: "action list" where
  "sentinel_run = [Resume 0 0, Put (Some [3]), Put None, Put (Some [4]), Resume 1 1, Resume 2 2]"


section \<open>Lemmas\<close>

subsection \<open>The pipeline, case by case\<close>

lemma played_append: "played (xs @ ys) = played xs @ played ys"
  by (induction xs rule: played.induct) simp_all

lemma synthesis_requests_append:
  "synthesis_requests (xs @ ys) = synthesis_requests xs @ synthesis_requests ys"
  by (induction xs rule: synthesis_requests.induct) simp_all

lemma translation_requests_append:
  "translation_requests (xs @ ys) = translation_requests xs @ translation_requests ys"
  by (induction xs rule: translation_requests.induct) simp_all

lemma played_base_events: "played (base_events env text langTo n) = []"
  by (simp add: base_events_def)

lemma played_play_events: "played (play_events env text langTo n p) = [output_name n]"
  by (simp add: play_events_def base_events_def)

lemma synthesize_text_skip:
  assumes "PLAY_INC w \<noteq> RECORD_INC w"
  shows "synthesize_text env text langTo w =
           Inr (w\<lparr>files := (files w)(output_name (RECORD_INC w) \<mapsto> synthesize_speech env text langTo),
                   trace := trace w @ base_events env text langTo (RECORD_INC w)\<rparr>)"
  using assms by (simp add: synthesize_text_def Let_def emit_def write_file_def base_events_def)

lemma synthesize_text_play:
  assumes "PLAY_INC w = RECORD_INC w"
  shows "synthesize_text env text langTo w =
           Inr (w\<lparr>PLAY_INC := advanced env text langTo w,
                   files := (files w)(output_name (RECORD_INC w) \<mapsto> synthesize_speech env text langTo),
                   trace := trace w @ play_events env text langTo (RECORD_INC w)
                                        (advanced env text langTo w)\<rparr>)"
proof (cases "elapsed_at_check env w < clip_length env text langTo")
  case True
  with assms show ?thesis
    by (simp add: synthesize_text_def Let_def emit_def write_file_def base_events_def
        play_events_def time_time_def advanced_def elapsed_at_check_def start_reading_def
        clip_length_def eval_nat_numeral)
next
  case False
  with assms show ?thesis
    by (simp add: synthesize_text_def Let_def emit_def write_file_def base_events_def
        play_events_def time_time_def advanced_def elapsed_at_check_def start_reading_def
        clip_length_def eval_nat_numeral)
qed

lemma translate_text_skip:
  assumes "PLAY_INC w \<noteq> RECORD_INC w"
  shows "translate_text env text trl langTo w =
           Inr (w\<lparr>files := (files w)(output_name (RECORD_INC w) \<mapsto>
                       synthesize_speech env (translation_of env text trl) langTo),
                   trace := trace w @ Translate text trl #
                     base_events env (translation_of env text trl) langTo (RECORD_INC w) @
                     [Print (lit ''Translation: '' @ translation_of env text trl)]\<rparr>)"
  using assms
  by (simp add: translate_text_def Let_def synthesize_text_skip emit_def translation_of_def)

lemma translate_text_play:
  assumes "PLAY_INC w = RECORD_INC w"
  shows "translate_text env text trl langTo w =
           Inr (w\<lparr>PLAY_INC := advanced env (translation_of env text trl) langTo (emit (Translate text trl) w),
                   files := (files w)(output_name (RECORD_INC w) \<mapsto>
                       synthesize_speech env (translation_of env text trl) langTo),
                   trace := trace w @ Translate text trl #
                     play_events env (translation_of env text trl) langTo (RECORD_INC w)
                       (advanced env (translation_of env text trl) langTo (emit (Translate text trl) w)) @
                     [Print (lit ''Translation: '' @ translation_of env text trl)]\<rparr>)"
  using assms
  by (simp add: translate_text_def Let_def synthesize_text_play emit_def translation_of_def)

lemma advanced_emit: "PLAY_INC (emit e w) = PLAY_INC w"
  by (simp add: emit_def)

lemma advanced_cases:
  "advanced env text langTo w = PLAY_INC w \<or> advanced env text langTo w = PLAY_INC w + 1"
  by (simp add: advanced_def)

lemma translate_text_effect:
  "\<exists>w'. translate_text env text trl lt w = Inr w' \<and>
        RECORD_INC w' = RECORD_INC w \<and> mic w' = mic w \<and>
        (PLAY_INC w \<noteq> RECORD_INC w \<longrightarrow>
           PLAY_INC w' = PLAY_INC w \<and> played (trace w') = played (trace w)) \<and>
        (PLAY_INC w = RECORD_INC w \<longrightarrow>
           (PLAY_INC w' = PLAY_INC w \<or> PLAY_INC w' = PLAY_INC w + 1) \<and>
           played (trace w') = played (trace w) @ [output_name (PLAY_INC w)])"
proof (cases "PLAY_INC w = RECORD_INC w")
  case True
  have "advanced env (translation_of env text trl) lt (emit (Translate text trl) w) = PLAY_INC w \<or>
        advanced env (translation_of env text trl) lt (emit (Translate text trl) w) = PLAY_INC w + 1"
    using advanced_cases [of env _ lt "emit (Translate text trl) w"] by (simp add: advanced_emit)
  with True show ?thesis
    by (auto simp add: translate_text_play played_append played_play_events)
next
  case False
  then show ?thesis
    by (simp add: translate_text_skip played_append played_base_events)
qed

lemma listen_body_no_results:
  "results r = [] \<Longrightarrow> listen_body env trl lt (r # rs) n w = listen_body env trl lt rs n w"
  by simp

lemma listen_body_no_alternatives:
  "results r = res # rest \<Longrightarrow> alternatives res = [] \<Longrightarrow>
   listen_body env trl lt (r # rs) n w = listen_body env trl lt rs n w"
  by simp

lemma listen_body_interim:
  "results r = res # rest \<Longrightarrow> alternatives res = alt # others \<Longrightarrow> \<not> is_final res \<Longrightarrow>
   listen_body env trl lt (r # rs) n w =
     listen_body env trl lt rs (int (length (transcript alt)))
       (emit (StdoutWrite (transcript alt @ overwrite_chars n (transcript alt) @ [13])) w)"
  by (simp add: Let_def overwrite_chars_def)

lemma listen_body_keyword:
  "results r = res # rest \<Longrightarrow> alternatives res = alt # others \<Longrightarrow> is_final res \<Longrightarrow>
   re_search_exit_quit (ucd env) (transcript alt) \<Longrightarrow>
   listen_body env trl lt (r # rs) n w =
     Inr ((emit (Print (lit ''Exiting..''))
            (emit (Print (transcript alt @ overwrite_chars n (transcript alt))) w))
          \<lparr>mic := (mic w)\<lparr>closed_flag := True\<rparr>\<rparr>)"
  by (simp add: Let_def emit_def overwrite_chars_def)

lemma listen_body_dispatch:
  "results r = res # rest \<Longrightarrow> alternatives res = alt # others \<Longrightarrow> is_final res \<Longrightarrow>
   \<not> re_search_exit_quit (ucd env) (transcript alt) \<Longrightarrow>
   listen_body env trl lt (r # rs) n w =
     (case translate_text env (transcript alt) trl lt
             (emit (Print (transcript alt @ overwrite_chars n (transcript alt))) w) of
        Inl e \<Rightarrow> Inl e
      | Inr w2 \<Rightarrow> listen_body env trl lt rs 0 (w2\<lparr>RECORD_INC := RECORD_INC w2 + 1\<rparr>))"
  by (simp add: Let_def overwrite_chars_def)

declare listen_body.simps(2) [simp del]

lemma response_cases:
  obtains (no_results) "results r = []"
  | (no_alternatives) res rest where "results r = res # rest" "alternatives res = []"
  | (interim) res rest alt others where
      "results r = res # rest" "alternatives res = alt # others" "\<not> is_final res"
  | (keyword) res rest alt others where
      "results r = res # rest" "alternatives res = alt # others" "is_final res"
      "re_search_exit_quit (ucd env) (transcript alt)"
  | (dispatch) res rest alt others where
      "results r = res # rest" "alternatives res = alt # others" "is_final res"
      "\<not> re_search_exit_quit (ucd env) (transcript alt)"
  by (cases "results r"; cases "alternatives (hd (results r))"; cases "is_final (hd (results r))";
      cases "re_search_exit_quit (ucd env) (transcript (hd (alternatives (hd (results r)))))") auto

text \<open>
  A property kept by printing, by closing the stream and by a dispatch followed by the
  increment of \<^verbatim>\<open>RECORD_INC\<close> holds when the loop ends.
\<close>

lemma listen_body_invariant:
  assumes pr: "\<And>w s. I w \<Longrightarrow> I (emit (Print s) w)"
    and wr: "\<And>w s. I w \<Longrightarrow> I (emit (StdoutWrite s) w)"
    and cl: "\<And>w. I w \<Longrightarrow> I (w\<lparr>mic := (mic w)\<lparr>closed_flag := True\<rparr>\<rparr>)"
    and di: "\<And>w text w2. I w \<Longrightarrow> translate_text env text trl lt w = Inr w2 \<Longrightarrow>
                     I (w2\<lparr>RECORD_INC := RECORD_INC w2 + 1\<rparr>)"
  shows "I w \<Longrightarrow> listen_body env trl lt rs n w = Inr w' \<Longrightarrow> I w'"
proof (induction rs arbitrary: n w)
  case Nil
  then show ?case by simp
next
  case (Cons r rs)
  show ?case
  proof (cases r rule: response_cases [where env = env])
    case no_results
    with Cons show ?thesis by (simp add: listen_body_no_results)
  next
    case (no_alternatives res rest)
    with Cons show ?thesis by (simp add: listen_body_no_alternatives [OF no_alternatives])
  next
    case (interim res rest alt others)
    from Cons.prems(2) have "listen_body env trl lt rs (int (length (transcript alt)))
       (emit (StdoutWrite (transcript alt @ overwrite_chars n (transcript alt) @ [13])) w) = Inr w'"
      by (simp add: listen_body_interim [OF interim])
    then show ?thesis using Cons.IH wr [OF Cons.prems(1)] by blast
  next
    case (keyword res rest alt others)
    have "I ((emit (Print (lit ''Exiting..''))
            (emit (Print (transcript alt @ overwrite_chars n (transcript alt))) w))
          \<lparr>mic := (mic w)\<lparr>closed_flag := True\<rparr>\<rparr>)"
      using cl [OF pr [OF pr [OF Cons.prems(1)]]] by (simp add: emit_def)
    then show ?thesis using Cons.prems(2) by (simp add: listen_body_keyword [OF keyword])
  next
    case (dispatch res rest alt others)
    let ?w1 = "emit (Print (transcript alt @ overwrite_chars n (transcript alt))) w"
    obtain w2 where w2: "translate_text env (transcript alt) trl lt ?w1 = Inr w2"
      using translate_text_effect by blast
    have "I (w2\<lparr>RECORD_INC := RECORD_INC w2 + 1\<rparr>)"
      using di [OF pr [OF Cons.prems(1)] w2] .
    moreover have "listen_body env trl lt rs 0 (w2\<lparr>RECORD_INC := RECORD_INC w2 + 1\<rparr>) = Inr w'"
      using Cons.prems(2) w2 by (simp add: listen_body_dispatch [OF dispatch])
    ultimately show ?thesis using Cons.IH by blast
  qed
qed

lemma listen_body_total: "\<exists>w'. listen_body env trl lt rs n w = Inr w'"
proof (induction rs arbitrary: n w)
  case Nil
  show ?case by simp
next
  case (Cons r rs)
  show ?case
  proof (cases r rule: response_cases [where env = env])
    case no_results
    then show ?thesis using Cons.IH by (simp add: listen_body_no_results)
  next
    case (no_alternatives res rest)
    then show ?thesis using Cons.IH by (simp add: listen_body_no_alternatives [OF no_alternatives])
  next
    case (interim res rest alt others)
    then show ?thesis using Cons.IH by (simp add: listen_body_interim [OF interim])
  next
    case (keyword res rest alt others)
    then show ?thesis by (simp add: listen_body_keyword [OF keyword])
  next
    case (dispatch res rest alt others)
    obtain w2 where "translate_text env (transcript alt) trl lt
        (emit (Print (transcript alt @ overwrite_chars n (transcript alt))) w) = Inr w2"
      using translate_text_effect by blast
    then show ?thesis using Cons.IH by (simp add: listen_body_dispatch [OF dispatch])
  qed
qed

lemma str_mul_space: "str_mul (lit '' '') n = replicate (nat n) 32"
  by (induction "nat n" arbitrary: n)
     (auto simp add: str_mul_def lit_def py_ord_def replicate_append_same simp flip: replicate_Suc)


lemma listen_loop_total: "\<exists>w'. listen_loop env rs trl lt w = Inr w'"
  by (simp add: listen_loop_def listen_body_total)

lemma main_loop_total: "\<exists>w'. main_loop env sessions trl lt w = Inr w'"
proof (induction sessions arbitrary: w)
  case Nil
  show ?case by simp
next
  case (Cons rs sessions)
  obtain w1 where "listen_loop env rs trl lt w = Inr w1"
    using listen_loop_total by blast
  then show ?case using Cons.IH by simp
qed

lemma main_loop_invariant:
  assumes pr: "\<And>w s. I w \<Longrightarrow> I (emit (Print s) w)"
    and wr: "\<And>w s. I w \<Longrightarrow> I (emit (StdoutWrite s) w)"
    and cl: "\<And>w. I w \<Longrightarrow> I (w\<lparr>mic := (mic w)\<lparr>closed_flag := True\<rparr>\<rparr>)"
    and di: "\<And>w t w2. I w \<Longrightarrow> translate_text env t trl lt w = Inr w2 \<Longrightarrow>
                     I (w2\<lparr>RECORD_INC := RECORD_INC w2 + 1\<rparr>)"
  shows "I w \<Longrightarrow> main_loop env sessions trl lt w = Inr w' \<Longrightarrow> I w'"
proof (induction sessions arbitrary: w)
  case Nil
  then show ?case by simp
next
  case (Cons rs sessions)
  show ?case
  proof (cases "closed_flag (mic w)")
    case True
    with Cons.prems show ?thesis by simp
  next
    case False
    obtain w1 where w1: "listen_loop env rs trl lt w = Inr w1"
      using listen_loop_total by blast
    then have "I w1"
      using listen_body_invariant [of I env trl lt, OF pr wr cl di Cons.prems(1)]
      by (simp add: listen_loop_def)
    moreover have "main_loop env sessions trl lt w1 = Inr w'"
      using Cons.prems(2) False w1 by simp
    ultimately show ?thesis using Cons.IH by blast
  qed
qed

lemma played_emit_Print: "played (trace (emit (Print s) w)) = played (trace w)"
  by (simp add: emit_def played_append)

lemma played_emit_StdoutWrite: "played (trace (emit (StdoutWrite s) w)) = played (trace w)"
  by (simp add: emit_def played_append)

lemma emit_fields:
  "PLAY_INC (emit e w) = PLAY_INC w" "RECORD_INC (emit e w) = RECORD_INC w" "mic (emit e w) = mic w"
  by (simp_all add: emit_def)

lemma behind_steps:
  "behind p names w \<Longrightarrow> behind p names (emit (Print s) w)"
  "behind p names w \<Longrightarrow> behind p names (emit (StdoutWrite s) w)"
  "behind p names w \<Longrightarrow> behind p names (w\<lparr>mic := (mic w)\<lparr>closed_flag := True\<rparr>\<rparr>)"
  "behind p names w \<Longrightarrow> translate_text env t trl lt w = Inr w2 \<Longrightarrow>
     behind p names (w2\<lparr>RECORD_INC := RECORD_INC w2 + 1\<rparr>)"
proof -
  show "behind p names w \<Longrightarrow> behind p names (emit (Print s) w)"
    by (simp add: behind_def emit_fields played_emit_Print)
  show "behind p names w \<Longrightarrow> behind p names (emit (StdoutWrite s) w)"
    by (simp add: behind_def emit_fields played_emit_StdoutWrite)
  show "behind p names w \<Longrightarrow> behind p names (w\<lparr>mic := (mic w)\<lparr>closed_flag := True\<rparr>\<rparr>)"
    by (simp add: behind_def)
  show "behind p names w \<Longrightarrow> translate_text env t trl lt w = Inr w2 \<Longrightarrow>
     behind p names (w2\<lparr>RECORD_INC := RECORD_INC w2 + 1\<rparr>)"
    using translate_text_effect [of env t trl lt w] by (auto simp add: behind_def)
qed

lemma le_steps:
  "PLAY_INC w \<le> RECORD_INC w \<Longrightarrow> PLAY_INC (emit (Print s) w) \<le> RECORD_INC (emit (Print s) w)"
  "PLAY_INC w \<le> RECORD_INC w \<Longrightarrow> PLAY_INC (emit (StdoutWrite s) w) \<le> RECORD_INC (emit (StdoutWrite s) w)"
  "PLAY_INC w \<le> RECORD_INC w \<Longrightarrow>
     PLAY_INC (w\<lparr>mic := (mic w)\<lparr>closed_flag := True\<rparr>\<rparr>) \<le> RECORD_INC (w\<lparr>mic := (mic w)\<lparr>closed_flag := True\<rparr>\<rparr>)"
  "PLAY_INC w \<le> RECORD_INC w \<Longrightarrow> translate_text env t trl lt w = Inr w2 \<Longrightarrow>
     PLAY_INC (w2\<lparr>RECORD_INC := RECORD_INC w2 + 1\<rparr>) \<le> RECORD_INC (w2\<lparr>RECORD_INC := RECORD_INC w2 + 1\<rparr>)"
proof -
  show "PLAY_INC w \<le> RECORD_INC w \<Longrightarrow> translate_text env t trl lt w = Inr w2 \<Longrightarrow>
     PLAY_INC (w2\<lparr>RECORD_INC := RECORD_INC w2 + 1\<rparr>) \<le> RECORD_INC (w2\<lparr>RECORD_INC := RECORD_INC w2 + 1\<rparr>)"
    using translate_text_effect [of env t trl lt w] by auto
qed (simp_all add: emit_fields)

lemma in_order_steps:
  "in_order p names w \<Longrightarrow> in_order p names (emit (Print s) w)"
  "in_order p names w \<Longrightarrow> in_order p names (emit (StdoutWrite s) w)"
  "in_order p names w \<Longrightarrow> in_order p names (w\<lparr>mic := (mic w)\<lparr>closed_flag := True\<rparr>\<rparr>)"
  "in_order p names w \<Longrightarrow> translate_text env t trl lt w = Inr w2 \<Longrightarrow>
     in_order p names (w2\<lparr>RECORD_INC := RECORD_INC w2 + 1\<rparr>)"
proof -
  show "in_order p names w \<Longrightarrow> in_order p names (emit (Print s) w)"
    by (simp add: in_order_def emit_fields played_emit_Print)
  show "in_order p names w \<Longrightarrow> in_order p names (emit (StdoutWrite s) w)"
    by (simp add: in_order_def emit_fields played_emit_StdoutWrite)
  show "in_order p names w \<Longrightarrow> in_order p names (w\<lparr>mic := (mic w)\<lparr>closed_flag := True\<rparr>\<rparr>)"
    by (simp add: in_order_def)
  show "in_order p names (w2\<lparr>RECORD_INC := RECORD_INC w2 + 1\<rparr>)"
    if io: "in_order p names w" and tr: "translate_text env t trl lt w = Inr w2"
  proof -
    from io obtain k where k: "played (trace w) = names @ map (\<lambda>j. output_name (p + int j)) [0..<k]"
      and c: "PLAY_INC w = p + int k \<or> (PLAY_INC w + 1 = p + int k \<and> PLAY_INC w < RECORD_INC w)"
      by (auto simp add: in_order_def)
    from translate_text_effect [of env t trl lt w] tr
    have eff: "RECORD_INC w2 = RECORD_INC w"
      "PLAY_INC w \<noteq> RECORD_INC w \<longrightarrow> PLAY_INC w2 = PLAY_INC w \<and> played (trace w2) = played (trace w)"
      "PLAY_INC w = RECORD_INC w \<longrightarrow> (PLAY_INC w2 = PLAY_INC w \<or> PLAY_INC w2 = PLAY_INC w + 1) \<and>
           played (trace w2) = played (trace w) @ [output_name (PLAY_INC w)]"
      by auto
    show ?thesis
    proof (cases "PLAY_INC w = RECORD_INC w")
      case False
      with eff k c show ?thesis
        unfolding in_order_def by (intro exI [of _ k]) auto
    next
      case True
      with c have pk: "PLAY_INC w = p + int k" by auto
      from True eff k pk
      have "played (trace w2) = names @ map (\<lambda>j. output_name (p + int j)) [0..<Suc k]"
        by simp
      moreover from True eff pk
      have "PLAY_INC w2 = p + int (Suc k) \<or> (PLAY_INC w2 + 1 = p + int (Suc k) \<and> PLAY_INC w2 < RECORD_INC w2 + 1)"
        by auto
      ultimately show ?thesis
        unfolding in_order_def by (intro exI [of _ "Suc k"]) simp
    qed
  qed
qed

lemma listen_body_behind:
  assumes "PLAY_INC w < RECORD_INC w"
  shows "\<exists>w'. listen_body env trl lt rs n w = Inr w' \<and> PLAY_INC w' = PLAY_INC w \<and>
              played (trace w') = played (trace w)"
proof -
  obtain w' where w': "listen_body env trl lt rs n w = Inr w'"
    using listen_body_total by blast
  have "behind (PLAY_INC w) (played (trace w)) w"
    using assms by (simp add: behind_def)
  then have "behind (PLAY_INC w) (played (trace w)) w'"
    using listen_body_invariant [of "behind (PLAY_INC w) (played (trace w))" env trl lt w rs n w']
      behind_steps w' by blast
  with w' show ?thesis by (simp add: behind_def)
qed

lemma main_loop_behind:
  assumes "PLAY_INC w < RECORD_INC w"
  shows "\<exists>w'. main_loop env sessions trl lt w = Inr w' \<and> PLAY_INC w' = PLAY_INC w \<and>
              played (trace w') = played (trace w)"
proof -
  obtain w' where w': "main_loop env sessions trl lt w = Inr w'"
    using main_loop_total by blast
  have "behind (PLAY_INC w) (played (trace w)) w"
    using assms by (simp add: behind_def)
  then have "behind (PLAY_INC w) (played (trace w)) w'"
    using main_loop_invariant [of "behind (PLAY_INC w) (played (trace w))" env trl lt w sessions w']
      behind_steps w' by blast
  with w' show ?thesis by (simp add: behind_def)
qed

lemma files_emit: "files (emit e w) = files w"
  by (simp add: emit_def)

lemma synthesis_requests_base_events:
  "synthesis_requests (base_events env t langTo n) = [(t, langTo)]"
  by (simp add: base_events_def)


subsection \<open>The search of the regex engine finds what the specification describes\<close>











lemma requests_base_events:
  "translation_requests (base_events env t langTo n) = []"
  "synthesis_requests (base_events env t langTo n) = [(t, langTo)]"
  by (simp_all add: base_events_def)

lemma requests_play_events:
  "translation_requests (play_events env t langTo n p) = []"
  "synthesis_requests (play_events env t langTo n p) = [(t, langTo)]"
  by (simp_all add: play_events_def base_events_def)

lemma translate_text_requests:
  "\<exists>w'. translate_text env t trl lt w = Inr w' \<and>
        RECORD_INC w' = RECORD_INC w \<and> mic w' = mic w \<and>
        translation_requests (trace w') = translation_requests (trace w) @ [(t, trl)] \<and>
        synthesis_requests (trace w') = synthesis_requests (trace w) @ [(translation_of env t trl, lt)]"
proof (cases "PLAY_INC w = RECORD_INC w")
  case True
  then show ?thesis
    by (simp add: translate_text_play translation_requests_append synthesis_requests_append
        requests_play_events)
next
  case False
  then show ?thesis
    by (simp add: translate_text_skip translation_requests_append synthesis_requests_append
        requests_base_events)
qed




subsection \<open>Unescaping after escaping\<close>

lemma replace_char_append:
  "replace_char c r (xs @ ys) = replace_char c r xs @ replace_char c r ys"
  by (simp add: replace_char_def)

lemma html_escape_append: "html_escape (xs @ ys) = html_escape xs @ html_escape ys"
  by (simp add: html_escape_def replace_char_append)

lemma html_escape_single: "html_escape [x] = escape_char x"
  by (simp add: html_escape_def replace_char_def escape_char_def lit_def py_ord_def)

lemma html_escape_Nil: "html_escape [] = []"
  by (simp add: html_escape_def replace_char_def)

lemma html_escape_Cons: "html_escape (x # xs) = escape_char x @ html_escape xs"
  using html_escape_append [of "[x]" xs] by (simp add: html_escape_single)

lemma html_escape_chars: "html_escape s = concat (map escape_char s)"
  by (induction s) (simp_all add: html_escape_Nil html_escape_Cons)

text \<open>What \<^verbatim>\<open>_charref\<close> matches after the ampersand of each of the five sequences.\<close>

lemma charref_match_amp: "charref_match (lit ''amp;'' @ rest) = Some (lit ''amp;'')"
  by (simp add: charref_match_def lit_def py_ord_def name_char_def opt_semi_def)

lemma charref_match_lt: "charref_match (lit ''lt;'' @ rest) = Some (lit ''lt;'')"
  by (simp add: charref_match_def lit_def py_ord_def name_char_def opt_semi_def)

lemma charref_match_gt: "charref_match (lit ''gt;'' @ rest) = Some (lit ''gt;'')"
  by (simp add: charref_match_def lit_def py_ord_def name_char_def opt_semi_def)

lemma charref_match_quot: "charref_match (lit ''quot;'' @ rest) = Some (lit ''quot;'')"
  by (simp add: charref_match_def lit_def py_ord_def name_char_def opt_semi_def)

lemma charref_match_apos: "charref_match (lit ''#x27;'' @ rest) = Some (lit ''#x27;'')"
  by (simp add: charref_match_def lit_def py_ord_def is_digit_def is_hexdigit_def opt_semi_def)

lemma replace_charref_apos: "replace_charref tbl (lit ''#x27;'') = [39]"
  by (simp add: replace_charref_def lit_def py_ord_def rstrip_semi_def int_of_digits_def
      digit_val_def is_digit_def invalid_charrefs_def invalid_codepoint_def)

lemma replace_charref_named:
  "tbl (c # name) = Some rep \<Longrightarrow> c \<noteq> 35 \<Longrightarrow> replace_charref tbl (c # name) = rep"
  by (simp add: replace_charref_def)

lemma charref_sub_escape_char:
  assumes "standard_entities tbl"
  shows "charref_sub tbl (escape_char c @ rest) = c # charref_sub tbl rest"
proof -
  from assms have amp: "tbl (lit ''amp;'') = Some [38]" and lt: "tbl (lit ''lt;'') = Some [60]"
    and gt: "tbl (lit ''gt;'') = Some [62]" and quot: "tbl (lit ''quot;'') = Some [34]"
    by (simp_all add: standard_entities_def lit_def py_ord_def)
  have split: "lit ''&amp;'' = 38 # lit ''amp;''" "lit ''&lt;'' = 38 # lit ''lt;''"
    "lit ''&gt;'' = 38 # lit ''gt;''" "lit ''&quot;'' = 38 # lit ''quot;''"
    "lit ''&#x27;'' = 38 # lit ''#x27;''"
    by (simp_all add: lit_def py_ord_def)
  have len: "length (lit ''amp;'') = 4" "length (lit ''lt;'') = 3" "length (lit ''gt;'') = 3"
    "length (lit ''quot;'') = 5" "length (lit ''#x27;'') = 5"
    by (simp_all add: lit_def)
  have named: "replace_charref tbl (lit ''amp;'') = [38]" "replace_charref tbl (lit ''lt;'') = [60]"
    "replace_charref tbl (lit ''gt;'') = [62]" "replace_charref tbl (lit ''quot;'') = [34]"
    using amp lt gt quot by (simp_all add: replace_charref_def lit_def py_ord_def)
  consider "c = 38" | "c = 60" | "c = 62" | "c = 34" | "c = 39"
    | "c \<noteq> 38" "c \<noteq> 60" "c \<noteq> 62" "c \<noteq> 34" "c \<noteq> 39"
    by blast
  then show ?thesis
  proof cases
    case 1
    then show ?thesis
      by (simp add: escape_char_def split charref_match_amp named len)
  next
    case 2
    then show ?thesis
      by (simp add: escape_char_def split charref_match_lt named len)
  next
    case 3
    then show ?thesis
      by (simp add: escape_char_def split charref_match_gt named len)
  next
    case 4
    then show ?thesis
      by (simp add: escape_char_def split charref_match_quot named len)
  next
    case 5
    then show ?thesis
      by (simp add: escape_char_def split charref_match_apos replace_charref_apos len)
  next
    case 6
    then show ?thesis
      by (simp add: escape_char_def)
  qed
qed

lemma charref_sub_html_escape:
  assumes "standard_entities tbl"
  shows "charref_sub tbl (html_escape s) = s"
  by (induction s) (simp_all add: html_escape_Nil html_escape_Cons charref_sub_escape_char [OF assms])

lemma escape_char_no_amp: "38 \<notin> set (escape_char c) \<Longrightarrow> escape_char c = [c]"
  by (simp add: escape_char_def lit_def py_ord_def split: if_splits)

lemma html_escape_no_amp: "38 \<notin> set (html_escape s) \<Longrightarrow> html_escape s = s"
  by (induction s) (auto simp add: html_escape_Nil html_escape_Cons intro: escape_char_no_amp)

lemma html_unescape_escape:
  assumes "standard_entities tbl"
  shows "html_unescape tbl (html_escape s) = s"
  using charref_sub_html_escape [OF assms] html_escape_no_amp
  by (simp add: html_unescape_def)

lemma takeWhile_stop: "\<not> P y \<Longrightarrow> takeWhile P (xs @ y # ys) = takeWhile P xs"
  by (induction xs) simp_all

lemma opt_semi_amp: "opt_semi (drop n xs @ 38 # ys) = opt_semi (drop n xs)"
  by (cases "drop n xs") (simp_all add: opt_semi_def)

lemma drop_takeWhile_append:
  "drop (length (takeWhile P xs)) (xs @ zs) = drop (length (takeWhile P xs)) xs @ zs"
  by (simp add: length_takeWhile_le)

lemma takeWhile_take_stop:
  "\<not> P y \<Longrightarrow> takeWhile P (take n (xs @ y # ys)) = takeWhile P (take n xs)"
proof (induction xs arbitrary: n)
  case Nil
  then show ?case by (cases n) simp_all
next
  case (Cons x xs)
  then show ?case by (cases n) simp_all
qed

lemma length_takeWhile_take: "length (takeWhile P (take n xs)) \<le> length xs"
  by (metis length_takeWhile_le length_take min.cobounded1 order_trans)

lemma charref_match_before_amp: "charref_match (cs @ 38 # ys) = charref_match cs"
proof (cases cs)
  case Nil
  then show ?thesis by (simp add: charref_match_def name_char_def)
next
  case (Cons c r)
  show ?thesis
  proof (cases "c = 35")
    case False
    have d: "drop (length (takeWhile name_char (take 32 cs))) (cs @ 38 # ys) =
             drop (length (takeWhile name_char (take 32 cs))) cs @ 38 # ys"
      by (simp add: length_takeWhile_take)
    have "takeWhile name_char (take 32 (cs @ 38 # ys)) = takeWhile name_char (take 32 cs)"
      by (rule takeWhile_take_stop) (simp add: name_char_def)
    then show ?thesis
      using False Cons d
      by (simp add: charref_match_def Let_def opt_semi_amp del: take_append)
  next
    case True
    have dg: "takeWhile is_digit (r @ 38 # ys) = takeWhile is_digit r"
      by (rule takeWhile_stop) (simp add: is_digit_def)
    show ?thesis
    proof (cases r)
      case Nil
      with True Cons show ?thesis
        by (simp add: charref_match_def is_digit_def)
    next
      case (Cons x r')
      have hx: "takeWhile is_hexdigit (r' @ 38 # ys) = takeWhile is_hexdigit r'"
        by (rule takeWhile_stop) (simp add: is_hexdigit_def is_digit_def)
      have dg': "takeWhile is_digit (x # r' @ 38 # ys) = takeWhile is_digit (x # r')"
        using dg Cons by simp
      have d1: "drop (length (takeWhile is_digit (x # r'))) (x # r' @ 38 # ys) =
                drop (length (takeWhile is_digit (x # r'))) (x # r') @ 38 # ys"
        using drop_takeWhile_append [of is_digit "x # r'" "38 # ys"] by simp
      have d2: "drop (length (takeWhile is_hexdigit r')) (r' @ 38 # ys) =
                drop (length (takeWhile is_hexdigit r')) r' @ 38 # ys"
        by (rule drop_takeWhile_append)
      from True \<open>cs = c # r\<close> Cons show ?thesis
        by (simp add: charref_match_def Let_def dg' hx d1 d2 opt_semi_amp
            del: takeWhile.simps drop_Cons' drop.simps drop_append)
    qed
  qed
qed

lemma opt_semi_length: "length (opt_semi s) \<le> length s"
  by (cases s) (simp_all add: opt_semi_def)

lemma takeWhile_opt_semi_length:
  "length (takeWhile P xs @ opt_semi (drop (length (takeWhile P xs)) xs)) \<le> length xs"
  using opt_semi_length [of "drop (length (takeWhile P xs)) xs"] length_takeWhile_le [of P xs]
  by simp

lemma take_opt_semi_length:
  "length (takeWhile P (take n xs) @ opt_semi (drop (length (takeWhile P (take n xs))) xs)) \<le> length xs"
  using opt_semi_length [of "drop (length (takeWhile P (take n xs))) xs"]
    length_takeWhile_take [of P n xs]
  by simp

lemma charref_match_length:
  assumes "charref_match cs = Some g"
  shows "length g \<le> length cs"
proof (cases cs)
  case Nil
  with assms show ?thesis by (simp add: charref_match_def)
next
  case (Cons c r)
  show ?thesis
  proof (cases "c = 35")
    case False
    with assms Cons have "g = takeWhile name_char (take 32 cs) @
        opt_semi (drop (length (takeWhile name_char (take 32 cs))) cs)"
      by (simp add: charref_match_def Let_def split: if_splits)
    then show ?thesis using take_opt_semi_length by metis
  next
    case True
    show ?thesis
    proof (cases "takeWhile is_digit r = []")
      case False
      with assms Cons True have "g = c # takeWhile is_digit r @
          opt_semi (drop (length (takeWhile is_digit r)) r)"
        by (simp add: charref_match_def Let_def)
      then show ?thesis
        using takeWhile_opt_semi_length [of is_digit r] Cons by simp
    next
      case no_digits: True
      show ?thesis
      proof (cases r)
        case Nil
        with assms Cons True show ?thesis by (simp add: charref_match_def)
      next
        case r: (Cons x r')
        with assms \<open>cs = c # r\<close> True no_digits
        have "g = c # x # takeWhile is_hexdigit r' @
            opt_semi (drop (length (takeWhile is_hexdigit r')) r')"
          by (simp add: charref_match_def Let_def split: if_splits)
        then show ?thesis
          using takeWhile_opt_semi_length [of is_hexdigit r'] r \<open>cs = c # r\<close> by simp
      qed
    qed
  qed
qed

lemma charref_sub_before_amp:
  "charref_sub tbl (pre @ 38 # ys) = charref_sub tbl pre @ charref_sub tbl (38 # ys)"
proof (induction tbl pre rule: charref_sub.induct)
  case (1 tbl)
  show ?case by simp
next
  case (2 tbl c cs)
  show ?case
  proof (cases "c = 38")
    case False
    with 2 show ?thesis by simp
  next
    case True
    show ?thesis
    proof (cases "charref_match cs")
      case None
      with True 2 show ?thesis
        by (simp add: charref_match_before_amp del: charref_sub.simps(2) add: charref_sub.simps(2) [of _ 38 cs] charref_sub.simps(2) [of _ 38 "cs @ 38 # ys"])
    next
      case (Some g)
      then have "length g \<le> length cs" by (rule charref_match_length)
      with True Some 2 show ?thesis
        by (simp add: charref_match_before_amp del: charref_sub.simps(2) add: charref_sub.simps(2) [of _ 38 cs] charref_sub.simps(2) [of _ 38 "cs @ 38 # ys"])
    qed
  qed
qed

lemma charref_sub_no_amp: "38 \<notin> set s \<Longrightarrow> charref_sub tbl s = s"
  by (induction s) simp_all

lemma html_unescape_charref_sub: "html_unescape tbl s = charref_sub tbl s"
  by (simp add: html_unescape_def charref_sub_no_amp)

lemma html_unescape_amp:
  assumes "standard_entities tbl"
  shows "html_unescape tbl (pre @ lit ''&amp;'' @ post) =
           html_unescape tbl pre @ lit ''&'' @ html_unescape tbl post"
proof -
  have a: "lit ''&amp;'' = 38 # lit ''amp;''" and b: "lit ''&'' = [38]"
    and e: "escape_char 38 = lit ''&amp;''"
    by (simp_all add: lit_def py_ord_def escape_char_def)
  have "charref_sub tbl (lit ''&amp;'' @ post) = 38 # charref_sub tbl post"
    using charref_sub_escape_char [OF assms, of 38 post] by (simp only: e)
  then show ?thesis
    unfolding html_unescape_charref_sub
    using charref_sub_before_amp [of tbl pre "lit ''amp;'' @ post"]
    by (simp add: a b)
qed


subsection \<open>The generator, step by step\<close>

lemma drain_Some:
  "drain data q = (Some data', q') \<Longrightarrow> q' = [] \<and> (\<exists>more. data' = data @ more \<and> q = map Some more)"
proof (induction data q rule: drain.induct)
  case (1 data)
  then show ?case by simp
next
  case (2 data q)
  then show ?case by simp
next
  case (3 data chunk q)
  then obtain more where "q' = []" "data' = (data @ [chunk]) @ more" "q = map Some more"
    by auto
  then show ?case by (intro conjI exI [of _ "chunk # more"]) simp_all
qed

lemma drain_chunks: "drain data (map Some cs) = (Some (data @ cs), [])"
  by (induction cs arbitrary: data) simp_all

lemma get_and_drain_cases:
  obtains (blocked) "buff s = []" "get_and_drain s = (Blocked, InGet, s)"
  | (stopped) s' where "get_and_drain s = (Stop, Finished, s')"
  | (yielded) data where "data \<noteq> []" "buff s = map Some data"
      "get_and_drain s = (Yield data, LoopTop, s\<lparr>buff := []\<rparr>)"
proof (cases "buff s")
  case Nil
  then show ?thesis using blocked by (simp add: get_and_drain_def)
next
  case (Cons x q)
  show ?thesis
  proof (cases x)
    case None
    with Cons show ?thesis using stopped by (simp add: get_and_drain_def)
  next
    case (Some chunk)
    obtain r q' where d: "drain [chunk] q = (r, q')" by (cases "drain [chunk] q")
    show ?thesis
    proof (cases r)
      case None
      with Cons Some d show ?thesis using stopped by (simp add: get_and_drain_def)
    next
      case inner: (Some data)
      with d drain_Some [of "[chunk]" q data q']
      obtain more where "q' = []" "data = chunk # more" "q = map Some more" by auto
      with Cons Some d inner show ?thesis
        using yielded [of data] by (simp add: get_and_drain_def)
    qed
  qed
qed

lemma generator_step_cases:
  obtains (blocked) "fr \<noteq> Finished" "generator_step limit t1 t2 (fr, s) = (Blocked, InGet, s)"
  | (stopped) s' where "generator_step limit t1 t2 (fr, s) = (Stop, Finished, s')"
  | (yielded) data where "fr \<noteq> Finished" "data \<noteq> []" "buff s = map Some data"
      "generator_step limit t1 t2 (fr, s) = (Yield data, LoopTop, s\<lparr>buff := []\<rparr>)"
proof (cases "fr = Finished \<or> (fr = LoopTop \<and> (closed_flag s \<or> t1 - start_time s > limit))")
  case True
  then have "\<exists>s'. generator_step limit t1 t2 (fr, s) = (Stop, Finished, s')"
    by (cases fr) (auto simp add: generator_step_def)
  then show ?thesis using stopped by blast
next
  case False
  then have g: "generator_step limit t1 t2 (fr, s) = get_and_drain s" and nf: "fr \<noteq> Finished"
    by (cases fr; auto simp add: generator_step_def)+
  show ?thesis
    using blocked stopped yielded nf unfolding g by (cases s rule: get_and_drain_cases) auto
qed

lemma exec_Resume_cases:
  obtains (blocked) "gen g \<noteq> Finished" "exec limit (Resume t1 t2) g = g\<lparr>gen := InGet\<rparr>"
  | (stopped) s' where "exec limit (Resume t1 t2) g = g\<lparr>strm := s', gen := Finished\<rparr>"
  | (yielded) data where "gen g \<noteq> Finished" "data \<noteq> []" "buff (strm g) = map Some data"
      "exec limit (Resume t1 t2) g =
         g\<lparr>strm := (strm g)\<lparr>buff := []\<rparr>, gen := LoopTop, batches := batches g @ [data]\<rparr>"
proof (cases "gen g" "strm g" rule: generator_step_cases [where limit = limit and ?t1.0 = t1 and ?t2.0 = t2])
  case blocked
  then show ?thesis using that(1) by simp
next
  case (stopped s')
  then show ?thesis using that(2) by simp
next
  case (yielded data)
  then show ?thesis using that(3) by simp
qed

lemma run_append: "run limit (xs @ ys) g = run limit ys (run limit xs g)"
  by (induction xs arbitrary: g) simp_all

lemma exec_finished:
  "gen g = Finished \<Longrightarrow> exec limit a g = (case a of Put x \<Rightarrow> g\<lparr>strm := put x (strm g)\<rparr>
      | SetClosed \<Rightarrow> g\<lparr>strm := (strm g)\<lparr>closed_flag := True\<rparr>\<rparr> | Resume t1 t2 \<Rightarrow> g)"
  by (cases a) (simp_all add: generator_step_def)

lemma run_finished:
  "gen g = Finished \<Longrightarrow> gen (run limit acts g) = Finished \<and> batches (run limit acts g) = batches g"
proof (induction acts arbitrary: g)
  case Nil
  then show ?case by simp
next
  case (Cons a acts)
  have "gen (exec limit a g) = Finished" "batches (exec limit a g) = batches g"
    using Cons.prems by (cases a; simp add: generator_step_def)+
  then show ?case using Cons.IH [of "exec limit a g"] by simp
qed

lemma until_sentinel_chunks: "until_sentinel (map Some cs @ q) = cs @ until_sentinel q"
  by (induction cs) simp_all

lemma until_sentinel_at: "until_sentinel (map Some cs @ None # q) = cs"
  by (induction cs) simp_all

lemma puts_append: "puts (xs @ ys) = puts xs @ puts ys"
  by (induction xs rule: puts.induct) simp_all

lemma delivered_chunks_Yield:
  "delivered_chunks (g\<lparr>strm := s, gen := f, batches := batches g @ [data]\<rparr>) = delivered_chunks g @ data"
  by (simp add: delivered_chunks_def)

lemma run_delivers_prefix:
  "\<exists>ys. delivered_chunks (run limit acts g) = delivered_chunks g @ ys \<and>
        prefix ys (until_sentinel (buff (strm g) @ puts acts))"
proof (induction acts arbitrary: g)
  case Nil
  show ?case by simp
next
  case (Cons a acts)
  show ?case
  proof (cases a)
    case (Put x)
    then show ?thesis using Cons.IH [of "exec limit a g"]
      by (simp add: put_def delivered_chunks_def)
  next
    case SetClosed
    then show ?thesis using Cons.IH [of "exec limit a g"]
      by (simp add: delivered_chunks_def)
  next
    case (Resume t1 t2)
    show ?thesis
    proof (cases g rule: exec_Resume_cases [where limit = limit and ?t1.0 = t1 and ?t2.0 = t2])
      case blocked
      then show ?thesis using Cons.IH [of "g\<lparr>gen := InGet\<rparr>"] Resume
        by (simp add: delivered_chunks_def)
    next
      case (stopped s')
      have "batches (run limit acts (g\<lparr>strm := s', gen := Finished\<rparr>)) = batches g"
        using run_finished [of "g\<lparr>strm := s', gen := Finished\<rparr>" limit acts] by simp
      then show ?thesis using stopped Resume
        by (simp add: delivered_chunks_def)
    next
      case (yielded data)
      let ?g' = "g\<lparr>strm := (strm g)\<lparr>buff := []\<rparr>, gen := LoopTop, batches := batches g @ [data]\<rparr>"
      from Cons.IH [of ?g'] obtain ys where
        ys: "delivered_chunks (run limit acts ?g') = delivered_chunks ?g' @ ys"
          "prefix ys (until_sentinel (puts acts))"
        by auto
      have "delivered_chunks (run limit (a # acts) g) = delivered_chunks g @ data @ ys"
        using ys(1) yielded Resume by (simp add: delivered_chunks_def)
      moreover have "prefix (data @ ys) (until_sentinel (buff (strm g) @ puts (a # acts)))"
        using ys(2) yielded Resume by (simp add: until_sentinel_chunks)
      ultimately show ?thesis by blast
    qed
  qed
qed

lemma get_and_drain_chunks:
  "buff s = map Some cs \<Longrightarrow>
   get_and_drain s = (if cs = [] then (Blocked, InGet, s) else (Yield cs, LoopTop, s\<lparr>buff := []\<rparr>))"
  by (cases cs) (simp_all add: get_and_drain_def drain_chunks)

lemma live_Resume:
  assumes "\<not> closed_flag (strm g)" "buff (strm g) = map Some cs"
  shows "exec limit (Resume t1 t2) g =
     (if gen g = Finished then g
      else if gen g = LoopTop \<and> limit < t1 - start_time (strm g)
        then g\<lparr>strm := (strm g)\<lparr>start_time := t2\<rparr>, gen := Finished\<rparr>
      else if cs = [] then g\<lparr>gen := InGet\<rparr>
      else g\<lparr>strm := (strm g)\<lparr>buff := []\<rparr>, gen := LoopTop, batches := batches g @ [cs]\<rparr>)"
  using assms by (cases "gen g") (simp_all add: generator_step_def get_and_drain_chunks)

lemma live_exec:
  assumes "live_session g" "live a"
  shows "live_session (exec limit a g)"
    and "map Some (delivered_chunks (exec limit a g)) @ buff (strm (exec limit a g)) =
           map Some (delivered_chunks g) @ buff (strm g) @ puts [a]"
    and "gen (exec limit a g) \<noteq> Finished \<Longrightarrow> start_time (strm (exec limit a g)) = start_time (strm g)"
    and "gen g = Finished \<Longrightarrow> gen (exec limit a g) = Finished"
proof -
  from assms(1) obtain cs where o: "\<not> closed_flag (strm g)" and b: "buff (strm g) = map Some cs"
    by (auto simp add: live_session_def)
  show "live_session (exec limit a g)"
  proof (cases a)
    case (Put x)
    with assms(2) obtain c where "x = Some c" by (cases x) auto
    with Put o b have "buff (strm (exec limit a g)) = map Some (cs @ [c])" "\<not> closed_flag (strm (exec limit a g))"
      by (simp_all add: put_def)
    then show ?thesis unfolding live_session_def by blast
  next
    case SetClosed
    with assms(2) show ?thesis by simp
  next
    case (Resume t1 t2)
    have "buff (strm (exec limit a g)) = map Some cs \<or> buff (strm (exec limit a g)) = map Some []"
      "\<not> closed_flag (strm (exec limit a g))"
      using o b unfolding Resume live_Resume [OF o b] by auto
    then show ?thesis unfolding live_session_def by blast
  qed
  show "map Some (delivered_chunks (exec limit a g)) @ buff (strm (exec limit a g)) =
           map Some (delivered_chunks g) @ buff (strm g) @ puts [a]"
  proof (cases a)
    case (Put x)
    then show ?thesis by (simp add: put_def delivered_chunks_def)
  next
    case SetClosed
    then show ?thesis by (simp add: delivered_chunks_def)
  next
    case (Resume t1 t2)
    show ?thesis
      using b unfolding Resume live_Resume [OF o b] by (simp add: delivered_chunks_def)
  qed
  show "start_time (strm (exec limit a g)) = start_time (strm g)" if "gen (exec limit a g) \<noteq> Finished"
  proof (cases a)
    case (Put x)
    then show ?thesis by (simp add: put_def)
  next
    case SetClosed
    then show ?thesis by simp
  next
    case (Resume t1 t2)
    show ?thesis
      using that unfolding Resume live_Resume [OF o b] by (auto split: if_splits)
  qed
  show "gen (exec limit a g) = Finished" if "gen g = Finished"
    using that by (cases a) (simp_all add: generator_step_def)
qed

lemma live_run:
  assumes "live_session g" "list_all live acts"
  shows "live_session (run limit acts g)"
    and "map Some (delivered_chunks (run limit acts g)) @ buff (strm (run limit acts g)) =
           map Some (delivered_chunks g) @ buff (strm g) @ puts acts"
    and "gen (run limit acts g) \<noteq> Finished \<Longrightarrow> start_time (strm (run limit acts g)) = start_time (strm g)"
    and "gen (run limit acts g) \<noteq> Finished \<Longrightarrow> gen g \<noteq> Finished"
  using assms
proof (induction acts arbitrary: g)
  case Nil
  {
    case 1 then show ?case by simp
  next
    case 2 then show ?case by simp
  next
    case 3 then show ?case by simp
  next
    case 4 then show ?case by simp
  }
next
  case (Cons a acts)
  {
    case 1
    then show ?case using Cons.IH(1) [of "exec limit a g"] live_exec(1) [of g a limit] by simp
  next
    case 2
    then have l: "live_session (exec limit a g)" "list_all live acts"
      using live_exec(1) [of g a limit] by simp_all
    have "puts (a # acts) = puts [a] @ puts acts"
      using puts_append [of "[a]" acts] by simp
    then show ?case
      using Cons.IH(2) [OF l] live_exec(2) [of g a limit] 2 by simp
  next
    case 3
    then have l: "live_session (exec limit a g)" "list_all live acts"
      using live_exec(1) [of g a limit] by simp_all
    from 3 have nf: "gen (run limit acts (exec limit a g)) \<noteq> Finished" by simp
    then have "gen (exec limit a g) \<noteq> Finished"
      using Cons.IH(4) [OF _ l] by blast
    then show ?case
      using Cons.IH(3) [OF nf l] live_exec(3) [of g a limit] 3 by simp
  next
    case 4
    then have l: "live_session (exec limit a g)" "list_all live acts"
      using live_exec(1) [of g a limit] by simp_all
    from 4 have nf: "gen (run limit acts (exec limit a g)) \<noteq> Finished" by simp
    then have "gen (exec limit a g) \<noteq> Finished"
      using Cons.IH(4) [OF _ l] by blast
    moreover have "live a" using 4 by simp
    ultimately show ?case using live_exec(4) [OF 4(2), of a limit] by blast
  }
qed

lemma live_step_finishes:
  assumes "live_session g" "live a" "gen g \<noteq> Finished"
  shows "gen (exec limit a g) = Finished \<longleftrightarrow>
           (\<exists>t1 t2. a = Resume t1 t2 \<and> gen g = LoopTop \<and> limit < t1 - start_time (strm g))"
proof -
  from assms(1) obtain cs where o: "\<not> closed_flag (strm g)" and b: "buff (strm g) = map Some cs"
    by (auto simp add: live_session_def)
  show ?thesis
  proof (cases a)
    case (Put x)
    with assms(3) show ?thesis by simp
  next
    case SetClosed
    with assms(2) show ?thesis by simp
  next
    case (Resume t1 t2)
    show ?thesis
      using assms(3) unfolding Resume live_Resume [OF o b] by simp
  qed
qed

lemma live_ends_iff:
  assumes "live_session g" "list_all live acts" "gen g \<noteq> Finished"
  shows "gen (run limit acts g) = Finished \<longleftrightarrow>
           (\<exists>pre t1 t2 post. acts = pre @ Resume t1 t2 # post \<and>
              gen (run limit pre g) = LoopTop \<and> limit < t1 - start_time (strm g))"
  using assms(2)
proof (induction acts rule: rev_induct)
  case Nil
  then show ?case using assms(3) by simp
next
  case (snoc a xs)
  let ?gx = "run limit xs g"
  from snoc.prems have lx: "list_all live xs" and la: "live a" by simp_all
  have lg: "live_session ?gx" using live_run(1) [OF assms(1) lx] .
  have st: "start_time (strm ?gx) = start_time (strm g)" if "gen ?gx \<noteq> Finished"
    using live_run(3) [OF assms(1) lx that] .
  have run: "run limit (xs @ [a]) g = exec limit a ?gx"
    by (simp add: run_append)
  show ?case
  proof
    assume fin: "gen (run limit (xs @ [a]) g) = Finished"
    show "\<exists>pre t1 t2 post. xs @ [a] = pre @ Resume t1 t2 # post \<and>
              gen (run limit pre g) = LoopTop \<and> limit < t1 - start_time (strm g)"
    proof (cases "gen ?gx = Finished")
      case True
      with snoc.IH [OF lx] obtain pre t1 t2 post where "xs = pre @ Resume t1 t2 # post"
        "gen (run limit pre g) = LoopTop" "limit < t1 - start_time (strm g)"
        by blast
      then have "xs @ [a] = pre @ Resume t1 t2 # (post @ [a])" by simp
      with \<open>gen (run limit pre g) = LoopTop\<close> \<open>limit < t1 - start_time (strm g)\<close>
      show ?thesis by blast
    next
      case False
      with fin live_step_finishes [OF lg la False, of limit] obtain t1 t2 where
        "a = Resume t1 t2" "gen ?gx = LoopTop" "limit < t1 - start_time (strm ?gx)"
        unfolding run by blast
      then have "xs @ [a] = xs @ Resume t1 t2 # []" "gen (run limit xs g) = LoopTop"
        "limit < t1 - start_time (strm g)"
        using st [OF False] by simp_all
      then show ?thesis by blast
    qed
  next
    assume "\<exists>pre t1 t2 post. xs @ [a] = pre @ Resume t1 t2 # post \<and>
              gen (run limit pre g) = LoopTop \<and> limit < t1 - start_time (strm g)"
    then obtain pre t1 t2 post where d: "xs @ [a] = pre @ Resume t1 t2 # post"
      and top: "gen (run limit pre g) = LoopTop" and ex: "limit < t1 - start_time (strm g)"
      by blast
    show "gen (run limit (xs @ [a]) g) = Finished"
    proof (cases post rule: rev_cases)
      case Nil
      with d have e: "xs = pre" "a = Resume t1 t2" by simp_all
      have nf: "gen ?gx \<noteq> Finished" using top e by simp
      show ?thesis
        unfolding run using live_step_finishes [OF lg la nf, of limit] top ex e st [OF nf] by simp
    next
      case (snoc post' a')
      with d have "xs = pre @ Resume t1 t2 # post'" by simp
      with snoc.IH [OF lx] top ex have "gen ?gx = Finished" by blast
      then show ?thesis
        unfolding run using live_exec(4) [OF lg la] by blast
    qed
  qed
qed

lemmas run_eval = generator_def generator_step_def get_and_drain_def put_def delivered_chunks_def
  STREAMING_LIMIT_def


section \<open>The transcript processor\<close>

text \<open>
  Claim C7. For consecutive interim results with transcripts \<open>p\<close> and then \<open>c\<close>, wherever
  the loop stands, the display update for \<open>c\<close> is \<open>c\<close>, then padding, then a carriage
  return. The padding consists of spaces; its length is \<open>max 0 (len p - len c)\<close>, which
  covers what \<open>p\<close> left on the line, and it is empty when \<open>c\<close> is longer than \<open>p\<close>:
  a negative count gives the empty string, not an error.
\<close>

theorem interim_padding_covers_previous:
  assumes "results r1 = res1 # rest1" "alternatives res1 = alt1 # others1" "\<not> is_final res1"
    and "results r2 = res2 # rest2" "alternatives res2 = alt2 # others2" "\<not> is_final res2"
    and "transcript alt1 = p" "transcript alt2 = c"
  shows "listen_body env trl lt (r1 # r2 # rs) n w =
           listen_body env trl lt rs (int (length c))
             (emit (StdoutWrite (c @ overwrite_chars (int (length p)) c @ [13]))
               (emit (StdoutWrite (p @ overwrite_chars n p @ [13])) w))
         \<and> overwrite_chars (int (length p)) c = replicate (length p - length c) 32
         \<and> int (length (overwrite_chars (int (length p)) c)) = max 0 (int (length p) - int (length c))
         \<and> (length p < length c \<longrightarrow> overwrite_chars (int (length p)) c = [])"
proof -
  have pad: "overwrite_chars (int (length p)) c = replicate (length p - length c) 32"
    by (simp add: overwrite_chars_def str_mul_space nat_diff_distrib')
  have "listen_body env trl lt (r1 # r2 # rs) n w =
          listen_body env trl lt (r2 # rs) (int (length p))
            (emit (StdoutWrite (p @ overwrite_chars n p @ [13])) w)"
    using listen_body_interim [OF assms(1-3)] assms(7) by simp
  also have "\<dots> = listen_body env trl lt rs (int (length c))
             (emit (StdoutWrite (c @ overwrite_chars (int (length p)) c @ [13]))
               (emit (StdoutWrite (p @ overwrite_chars n p @ [13])) w))"
    using listen_body_interim [OF assms(4-6)] assms(8) by simp
  finally show ?thesis using pad by simp
qed

theorem interim_padding_covers_previous_witness:
  "listen_body (test_env 2) [] [] [interim_response (lit ''hello world''), interim_response (lit ''hel'')] 0
       (world0 0 0) =
     Inr (emit (StdoutWrite (lit ''hel'' @ replicate 8 32 @ [13]))
           (emit (StdoutWrite (lit ''hello world'' @ [13])) (world0 0 0)))
   \<and> overwrite_chars (int (length (lit ''hello world''))) (lit ''hel'') = replicate 8 32
   \<and> int (length (overwrite_chars (int (length (lit ''hello world''))) (lit ''hel''))) = 8"
proof -
  have r: "results (interim_response t) = [\<lparr>alternatives = [\<lparr>transcript = t\<rparr>], is_final = False\<rparr>]"
    for t by (simp add: interim_response_def)
  have a: "alternatives \<lparr>alternatives = [\<lparr>transcript = t\<rparr>], is_final = False\<rparr> = [\<lparr>transcript = t\<rparr>]"
    for t by simp
  have f: "\<not> is_final \<lparr>alternatives = [\<lparr>transcript = t\<rparr>], is_final = False\<rparr>"
    for t by simp
  have t: "transcript \<lparr>transcript = t\<rparr> = t" for t :: pystr by simp
  show ?thesis
    using interim_padding_covers_previous [OF r [of "lit ''hello world''"] a f r [of "lit ''hel''"] a f t t,
        of "test_env 2" "[]" "[]" "[]" 0 "world0 0 0"]
    by (simp add: lit_def py_ord_def overwrite_chars_def str_mul_def eval_nat_numeral)
qed

text \<open>
  Claim C9. A response whose list of results is empty, or whose first result has no
  alternatives, is skipped: wherever it stands among the responses the loop ends as it
  does without it, so nothing is displayed or dispatched and the counters, the length
  of the interim line and the closed flag are as they were; on its own it returns the
  state unchanged, and not an error.
\<close>

theorem empty_response_skipped:
  assumes "results r = [] \<or> (\<exists>res rest. results r = res # rest \<and> alternatives res = [])"
  shows "listen_loop env (pre @ r # post) trl lt w = listen_loop env (pre @ post) trl lt w
       \<and> listen_loop env [r] trl lt w = Inr w
       \<and> listen_body env trl lt (r # rs) n w = listen_body env trl lt rs n w"
proof -
  from assms have "\<not> has_alternatives r"
    by (auto simp add: has_alternatives_def)
  then have "listen_loop env (pre @ r # post) trl lt w = listen_loop env (pre @ post) trl lt w"
    and "listen_loop env [r] trl lt w = Inr w"
    by (simp_all add: listen_loop_def)
  moreover from assms have "listen_body env trl lt (r # rs) n w = listen_body env trl lt rs n w"
    by (auto simp add: listen_body_no_results listen_body_no_alternatives)
  ultimately show ?thesis by simp
qed

theorem empty_response_skipped_witness:
  "listen_loop (test_env 2) [interim_response (lit ''hel''), empty_response, bare_response,
        interim_response (lit ''hello'')] [] [] (world0 0 0) =
   listen_loop (test_env 2) [interim_response (lit ''hel''), interim_response (lit ''hello'')] [] []
     (world0 0 0)
   \<and> listen_loop (test_env 2) [empty_response] [] [] (world0 0 0) = Inr (world0 0 0)
   \<and> listen_loop (test_env 2) [bare_response] [] [] (world0 0 0) = Inr (world0 0 0)"
  using empty_response_skipped [of empty_response "test_env 2" "[interim_response (lit ''hel'')]"
      "[bare_response, interim_response (lit ''hello'')]" "[]" "[]" "world0 0 0"]
    empty_response_skipped [of bare_response "test_env 2" "[interim_response (lit ''hel'')]"
      "[interim_response (lit ''hello'')]" "[]" "[]" "world0 0 0"]
  by (simp add: empty_response_def bare_response_def)





section \<open>Synthesis and playback\<close>

text \<open>
  Claim C1, on the code as it is. The claim has the call block for at least the clip's
  duration before it returns. Evaluated on a clip of two seconds and a clock on which
  every event takes a millisecond: \<^verbatim>\<open>playsound\<close> is called with \<^verbatim>\<open>block\<close> false, the call
  of \<^verbatim>\<open>synthesize_text\<close> returns two milliseconds after \<^verbatim>\<open>start\<close> was read, and \<^verbatim>\<open>PLAY_INC\<close>
  has advanced to one by then.
\<close>

theorem synthesis_returns_while_clip_plays:
  "\<not> isl (synthesize_text (test_env 2) (lit ''bonjour'') (lit ''fr-FR'') (world0 0 0))
   \<and> played (trace (projr (synthesize_text (test_env 2) (lit ''bonjour'') (lit ''fr-FR'') (world0 0 0))))
       = [output_name 0]
   \<and> Playsound (output_name 0) False
       \<in> set (trace (projr (synthesize_text (test_env 2) (lit ''bonjour'') (lit ''fr-FR'') (world0 0 0))))
   \<and> clip_length (test_env 2) (lit ''bonjour'') (lit ''fr-FR'') = 2
   \<and> time_time (test_env 2) (projr (synthesize_text (test_env 2) (lit ''bonjour'') (lit ''fr-FR'') (world0 0 0)))
       - start_reading (test_env 2) (world0 0 0) = 2 / 1000
   \<and> PLAY_INC (projr (synthesize_text (test_env 2) (lit ''bonjour'') (lit ''fr-FR'') (world0 0 0))) = 1"
proof -
  have "PLAY_INC (world0 0 0) = RECORD_INC (world0 0 0)"
    by (simp add: world0_def)
  then show ?thesis
    by (simp add: synthesize_text_play advanced_def elapsed_at_check_def start_reading_def
        clip_length_def test_env_def world0_def time_time_def play_events_def base_events_def
        played_append)
qed

text \<open>
  Claim C10. In a call of \<^verbatim>\<open>synthesize_text\<close> that takes the playback branch
  (\<^verbatim>\<open>PLAY_INC = RECORD_INC\<close>), \<^verbatim>\<open>PLAY_INC\<close> stays or grows by one, and it grows exactly when
  the time elapsed since \<^verbatim>\<open>start\<close> is below the clip's reported length at the check.
  For a clip whose reported length is not positive (time does not run backwards) it
  stays; and from every state with these counters once \<^verbatim>\<open>listen_loop\<close> has incremented
  \<^verbatim>\<open>RECORD_INC\<close>, no run of the loop or of the sessions of \<^verbatim>\<open>main\<close> hands a file to
  \<^verbatim>\<open>playsound\<close> or changes \<^verbatim>\<open>PLAY_INC\<close>.
\<close>

theorem gate_advances_only_if_check_passes:
  assumes "PLAY_INC w = RECORD_INC w"
  shows "\<exists>w'. synthesize_text env t langTo w = Inr w' \<and> RECORD_INC w' = RECORD_INC w \<and>
           (PLAY_INC w' = PLAY_INC w \<or> PLAY_INC w' = PLAY_INC w + 1) \<and>
           (PLAY_INC w' = PLAY_INC w + 1 \<longleftrightarrow> elapsed_at_check env w < clip_length env t langTo) \<and>
           (clip_length env t langTo \<le> 0 \<and> 0 \<le> elapsed_at_check env w \<longrightarrow>
              PLAY_INC w' = PLAY_INC w \<and>
              (\<forall>wk. PLAY_INC wk = PLAY_INC w' \<and> RECORD_INC wk = RECORD_INC w' + 1 \<longrightarrow>
                 (\<forall>rs n trl lt. \<exists>w''. listen_body env trl lt rs n wk = Inr w'' \<and>
                    PLAY_INC w'' = PLAY_INC wk \<and> played (trace w'') = played (trace wk)) \<and>
                 (\<forall>sessions trl lt. \<exists>w''. main_loop env sessions trl lt wk = Inr w'' \<and>
                    PLAY_INC w'' = PLAY_INC wk \<and> played (trace w'') = played (trace wk))))"
proof -
  let ?w' = "w\<lparr>PLAY_INC := advanced env t langTo w,
               files := (files w)(output_name (RECORD_INC w) \<mapsto> synthesize_speech env t langTo),
               trace := trace w @ play_events env t langTo (RECORD_INC w) (advanced env t langTo w)\<rparr>"
  have run: "synthesize_text env t langTo w = Inr ?w'"
    using assms by (rule synthesize_text_play)
  have p: "PLAY_INC ?w' = advanced env t langTo w" and r: "RECORD_INC ?w' = RECORD_INC w"
    by simp_all
  have once: "PLAY_INC ?w' = PLAY_INC w \<or> PLAY_INC ?w' = PLAY_INC w + 1"
    unfolding p using advanced_cases by blast
  have iff: "PLAY_INC ?w' = PLAY_INC w + 1 \<longleftrightarrow> elapsed_at_check env w < clip_length env t langTo"
    unfolding p by (simp add: advanced_def)
  have later: "PLAY_INC ?w' = PLAY_INC w \<and>
      (\<forall>wk. PLAY_INC wk = PLAY_INC ?w' \<and> RECORD_INC wk = RECORD_INC ?w' + 1 \<longrightarrow>
         (\<forall>rs n trl lt. \<exists>w''. listen_body env trl lt rs n wk = Inr w'' \<and>
            PLAY_INC w'' = PLAY_INC wk \<and> played (trace w'') = played (trace wk)) \<and>
         (\<forall>sessions trl lt. \<exists>w''. main_loop env sessions trl lt wk = Inr w'' \<and>
            PLAY_INC w'' = PLAY_INC wk \<and> played (trace w'') = played (trace wk)))"
    if "clip_length env t langTo \<le> 0" "0 \<le> elapsed_at_check env w"
  proof -
    from that have same: "PLAY_INC ?w' = PLAY_INC w"
      unfolding p by (simp add: advanced_def)
    have "PLAY_INC wk < RECORD_INC wk"
      if "PLAY_INC wk = PLAY_INC ?w' \<and> RECORD_INC wk = RECORD_INC ?w' + 1" for wk
      using that same assms unfolding r by simp
    then show ?thesis
      using same listen_body_behind main_loop_behind by blast
  qed
  show ?thesis
    using run r once iff later by blast
qed


theorem gate_advances_only_if_check_passes_witness:
  "PLAY_INC (projr (synthesize_text (test_env 0) (lit ''salut'') (lit ''fr-FR'') (world0 0 0))) = 0
   \<and> PLAY_INC (projr (synthesize_text (test_env 2) (lit ''salut'') (lit ''fr-FR'') (world0 0 0))) = 1
   \<and> played (trace (projr (main_loop (test_env 0) [[final_response (lit ''hello'')]] (lit ''fr'')
        (lit ''fr-FR'') (world0 1 0)))) = []"
proof -
  have h: "PLAY_INC (world0 0 0) = RECORD_INC (world0 0 0)"
    by (simp add: world0_def)
  have c0: "clip_length (test_env 0) (lit ''salut'') (lit ''fr-FR'') \<le> 0"
    and e0: "0 \<le> elapsed_at_check (test_env 0) (world0 0 0)"
    and e2: "elapsed_at_check (test_env 2) (world0 0 0)
               < clip_length (test_env 2) (lit ''salut'') (lit ''fr-FR'')"
    by (simp_all add: clip_length_def elapsed_at_check_def start_reading_def test_env_def world0_def)
  from gate_advances_only_if_check_passes [OF h, of "test_env 0" "lit ''salut''" "lit ''fr-FR''"] c0 e0
  obtain w0 where w0: "synthesize_text (test_env 0) (lit ''salut'') (lit ''fr-FR'') (world0 0 0) = Inr w0"
    "RECORD_INC w0 = RECORD_INC (world0 0 0)" "PLAY_INC w0 = PLAY_INC (world0 0 0)"
    and later: "\<And>wk sessions trl lt. PLAY_INC wk = PLAY_INC w0 \<Longrightarrow> RECORD_INC wk = RECORD_INC w0 + 1 \<Longrightarrow>
       \<exists>w''. main_loop (test_env 0) sessions trl lt wk = Inr w'' \<and> PLAY_INC w'' = PLAY_INC wk \<and>
           played (trace w'') = played (trace wk)"
    by blast
  from gate_advances_only_if_check_passes [OF h, of "test_env 2" "lit ''salut''" "lit ''fr-FR''"] e2
  obtain w2 where w2: "synthesize_text (test_env 2) (lit ''salut'') (lit ''fr-FR'') (world0 0 0) = Inr w2"
    "PLAY_INC w2 = PLAY_INC (world0 0 0) + 1"
    by blast
  have "PLAY_INC (world0 1 0) = PLAY_INC w0" "RECORD_INC (world0 1 0) = RECORD_INC w0 + 1"
    using w0 by (simp_all add: world0_def)
  from later [OF this, of "[[final_response (lit ''hello'')]]" "lit ''fr''" "lit ''fr-FR''"]
  obtain w'' where "main_loop (test_env 0) [[final_response (lit ''hello'')]] (lit ''fr'')
        (lit ''fr-FR'') (world0 1 0) = Inr w''" "played (trace w'') = played (trace (world0 1 0))"
    by blast
  with w0 w2 show ?thesis by (simp add: world0_def)
qed

text \<open>
  Claim C6. Once \<^verbatim>\<open>PLAY_INC\<close> is below \<^verbatim>\<open>RECORD_INC\<close> when an utterance is dispatched, the
  utterance is still sent to synthesis and its clip saved under the current index, but
  nothing is played; and whatever responses and sessions follow, \<^verbatim>\<open>PLAY_INC\<close> keeps its
  value and no file is handed to \<^verbatim>\<open>playsound\<close> again.
\<close>

theorem behind_playback_never_recovers:
  assumes "PLAY_INC w < RECORD_INC w"
  shows "(\<exists>w'. translate_text env t trl lt w = Inr w' \<and>
            synthesis_requests (trace w') = synthesis_requests (trace w) @ [(translation_of env t trl, lt)] \<and>
            files w' (output_name (RECORD_INC w)) = Some (synthesize_speech env (translation_of env t trl) lt) \<and>
            played (trace w') = played (trace w) \<and>
            PLAY_INC w' = PLAY_INC w \<and> RECORD_INC w' = RECORD_INC w)
       \<and> (\<exists>w'. listen_body env trl lt rs n w = Inr w' \<and> PLAY_INC w' = PLAY_INC w \<and>
            played (trace w') = played (trace w))
       \<and> (\<exists>w'. main_loop env sessions trl lt w = Inr w' \<and> PLAY_INC w' = PLAY_INC w \<and>
            played (trace w') = played (trace w))"
proof -
  from assms have ne: "PLAY_INC w \<noteq> RECORD_INC w" by simp
  have "\<exists>w'. translate_text env t trl lt w = Inr w' \<and>
            synthesis_requests (trace w') = synthesis_requests (trace w) @ [(translation_of env t trl, lt)] \<and>
            files w' (output_name (RECORD_INC w)) = Some (synthesize_speech env (translation_of env t trl) lt) \<and>
            played (trace w') = played (trace w) \<and>
            PLAY_INC w' = PLAY_INC w \<and> RECORD_INC w' = RECORD_INC w"
    by (simp add: translate_text_skip [OF ne] synthesis_requests_append synthesis_requests_base_events
        played_append played_base_events)
  then show ?thesis
    using listen_body_behind [OF assms] main_loop_behind [OF assms] by blast
qed

theorem behind_playback_never_recovers_witness:
  "played (trace (projr (main_loop (test_env 2)
       [[final_response (lit ''hello''), final_response (lit ''world'')], [final_response (lit ''again'')]]
       (lit ''fr'') (lit ''fr-FR'') (world0 1 0)))) = []
   \<and> PLAY_INC (projr (main_loop (test_env 2)
       [[final_response (lit ''hello''), final_response (lit ''world'')], [final_response (lit ''again'')]]
       (lit ''fr'') (lit ''fr-FR'') (world0 1 0))) = 0
   \<and> files (projr (translate_text (test_env 2) (lit ''hello'') (lit ''fr'') (lit ''fr-FR'') (world0 1 0)))
        (output_name 1) = Some []"
proof -
  have h: "PLAY_INC (world0 1 0) < RECORD_INC (world0 1 0)"
    by (simp add: world0_def)
  from behind_playback_never_recovers [OF h, of "test_env 2" "lit ''hello''" "lit ''fr''" "lit ''fr-FR''" "[]" 0
      "[[final_response (lit ''hello''), final_response (lit ''world'')], [final_response (lit ''again'')]]"]
  obtain w1 w2 where
    "translate_text (test_env 2) (lit ''hello'') (lit ''fr'') (lit ''fr-FR'') (world0 1 0) = Inr w1"
    "files w1 (output_name (RECORD_INC (world0 1 0))) =
       Some (synthesize_speech (test_env 2) (translation_of (test_env 2) (lit ''hello'') (lit ''fr'')) (lit ''fr-FR''))"
    "main_loop (test_env 2)
       [[final_response (lit ''hello''), final_response (lit ''world'')], [final_response (lit ''again'')]]
       (lit ''fr'') (lit ''fr-FR'') (world0 1 0) = Inr w2"
    "PLAY_INC w2 = PLAY_INC (world0 1 0)" "played (trace w2) = played (trace (world0 1 0))"
    by blast
  then show ?thesis by (simp add: world0_def test_env_def)
qed

text \<open>
  Claim C5, as the code has it. The claim has \<^verbatim>\<open>PLAY_INC \<le> RECORD_INC\<close> at every point.
  When \<^verbatim>\<open>translate_text\<close> returns for the first utterance, \<^verbatim>\<open>PLAY_INC\<close> is one and
  \<^verbatim>\<open>RECORD_INC\<close>, incremented only on the next line of \<^verbatim>\<open>listen_loop\<close>, is still zero.
\<close>

theorem played_exceeds_produced_during_dispatch:
  "\<not> isl (translate_text (test_env 2) (lit ''hello'') (lit ''fr'') (lit ''fr-FR'') (world0 0 0))
   \<and> PLAY_INC (projr (translate_text (test_env 2) (lit ''hello'') (lit ''fr'') (lit ''fr-FR'') (world0 0 0))) = 1
   \<and> RECORD_INC (projr (translate_text (test_env 2) (lit ''hello'') (lit ''fr'') (lit ''fr-FR'') (world0 0 0))) = 0
   \<and> \<not> PLAY_INC (projr (translate_text (test_env 2) (lit ''hello'') (lit ''fr'') (lit ''fr-FR'') (world0 0 0)))
       \<le> RECORD_INC (projr (translate_text (test_env 2) (lit ''hello'') (lit ''fr'') (lit ''fr-FR'') (world0 0 0)))"
proof -
  have "PLAY_INC (world0 0 0) = RECORD_INC (world0 0 0)"
    by (simp add: world0_def)
  then show ?thesis
    by (simp add: translate_text_play advanced_def elapsed_at_check_def start_reading_def
        clip_length_def test_env_def world0_def emit_def)
qed

text \<open>
  Claim C5, amended. From a state with \<^verbatim>\<open>PLAY_INC \<le> RECORD_INC\<close>: the inequality holds
  again when \<^verbatim>\<open>listen_loop\<close> has handled any list of responses and when \<^verbatim>\<open>main\<close> has run
  any list of sessions; inside a dispatch \<^verbatim>\<open>PLAY_INC\<close> is at most \<^verbatim>\<open>RECORD_INC + 1\<close>;
  \<^verbatim>\<open>PLAY_INC\<close> changes only in a dispatch that finds it equal to the index of the clip
  being processed, by one, after that clip was handed to \<^verbatim>\<open>playsound\<close>; so the files
  handed to \<^verbatim>\<open>playsound\<close> are \<^verbatim>\<open>output_p\<close>, \<^verbatim>\<open>output_(p+1)\<close>, ... in this order, \<open>p\<close> the
  value of \<^verbatim>\<open>PLAY_INC\<close> at the start.
\<close>

theorem played_le_produced_between_responses:
  assumes "PLAY_INC w \<le> RECORD_INC w"
  shows "(\<exists>w'. listen_loop env rs trl lt w = Inr w' \<and> PLAY_INC w' \<le> RECORD_INC w')
       \<and> (\<exists>w' k. main_loop env sessions trl lt w = Inr w' \<and> PLAY_INC w' \<le> RECORD_INC w' \<and>
            played (trace w') = played (trace w) @ map (\<lambda>j. output_name (PLAY_INC w + int j)) [0..<k])
       \<and> (\<exists>w'. translate_text env t trl lt w = Inr w' \<and> RECORD_INC w' = RECORD_INC w \<and>
            PLAY_INC w' \<le> RECORD_INC w' + 1 \<and>
            (PLAY_INC w' = PLAY_INC w \<or>
             PLAY_INC w = RECORD_INC w \<and> PLAY_INC w' = PLAY_INC w + 1 \<and>
             played (trace w') = played (trace w) @ [output_name (PLAY_INC w)]))"
proof -
  obtain w1 where w1: "listen_loop env rs trl lt w = Inr w1"
    using listen_loop_total by blast
  then have "PLAY_INC w1 \<le> RECORD_INC w1"
    using listen_body_invariant [of "\<lambda>w. PLAY_INC w \<le> RECORD_INC w" env trl lt w _ 0 w1] le_steps assms
    unfolding listen_loop_def by blast
  with w1 have a: "\<exists>w'. listen_loop env rs trl lt w = Inr w' \<and> PLAY_INC w' \<le> RECORD_INC w'"
    by blast
  obtain w2 where w2: "main_loop env sessions trl lt w = Inr w2"
    using main_loop_total by blast
  then have le2: "PLAY_INC w2 \<le> RECORD_INC w2"
    using main_loop_invariant [of "\<lambda>w. PLAY_INC w \<le> RECORD_INC w" env trl lt w sessions w2] le_steps assms
    by blast
  have "in_order (PLAY_INC w) (played (trace w)) w"
    unfolding in_order_def by (intro exI [of _ 0]) simp
  then have "in_order (PLAY_INC w) (played (trace w)) w2"
    using main_loop_invariant [of "in_order (PLAY_INC w) (played (trace w))" env trl lt w sessions w2]
      in_order_steps w2 by blast
  with w2 le2 have b: "\<exists>w' k. main_loop env sessions trl lt w = Inr w' \<and> PLAY_INC w' \<le> RECORD_INC w' \<and>
            played (trace w') = played (trace w) @ map (\<lambda>j. output_name (PLAY_INC w + int j)) [0..<k]"
    unfolding in_order_def by blast
  have c: "\<exists>w'. translate_text env t trl lt w = Inr w' \<and> RECORD_INC w' = RECORD_INC w \<and>
            PLAY_INC w' \<le> RECORD_INC w' + 1 \<and>
            (PLAY_INC w' = PLAY_INC w \<or>
             PLAY_INC w = RECORD_INC w \<and> PLAY_INC w' = PLAY_INC w + 1 \<and>
             played (trace w') = played (trace w) @ [output_name (PLAY_INC w)])"
    using translate_text_effect [of env t trl lt w] assms by auto
  from a b c show ?thesis by blast
qed

theorem played_le_produced_between_responses_witness:
  "PLAY_INC (projr (main_loop (test_env 2) [[final_response (lit ''hello''), final_response (lit ''world'')]]
       (lit ''fr'') (lit ''fr-FR'') (world0 0 0)))
     \<le> RECORD_INC (projr (main_loop (test_env 2) [[final_response (lit ''hello''), final_response (lit ''world'')]]
       (lit ''fr'') (lit ''fr-FR'') (world0 0 0)))
   \<and> PLAY_INC (projr (translate_text (test_env 2) (lit ''hello'') (lit ''fr'') (lit ''fr-FR'') (world0 0 0)))
     \<le> RECORD_INC (projr (translate_text (test_env 2) (lit ''hello'') (lit ''fr'') (lit ''fr-FR'') (world0 0 0))) + 1"
proof -
  have h: "PLAY_INC (world0 0 0) \<le> RECORD_INC (world0 0 0)"
    by (simp add: world0_def)
  from played_le_produced_between_responses [OF h, of "test_env 2" "[]" "lit ''fr''" "lit ''fr-FR''"
      "[[final_response (lit ''hello''), final_response (lit ''world'')]]" "lit ''hello''"]
  obtain w1 w2 where
    "main_loop (test_env 2) [[final_response (lit ''hello''), final_response (lit ''world'')]]
       (lit ''fr'') (lit ''fr-FR'') (world0 0 0) = Inr w1" "PLAY_INC w1 \<le> RECORD_INC w1"
    "translate_text (test_env 2) (lit ''hello'') (lit ''fr'') (lit ''fr-FR'') (world0 0 0) = Inr w2"
    "PLAY_INC w2 \<le> RECORD_INC w2 + 1"
    by blast
  then show ?thesis by simp
qed

section \<open>Translation\<close>

text \<open>
  Claim C8. Whatever the translation backend answers, the text sent to the synthesis
  backend is the answer after \<^verbatim>\<open>html.unescape\<close>. With the standard entries for
  \<^verbatim>\<open>&amp;\<close>, \<^verbatim>\<open>&lt;\<close>, \<^verbatim>\<open>&gt;\<close> and \<^verbatim>\<open>&quot;\<close> in the entity table, unescaping after
  \<^verbatim>\<open>html.escape\<close> gives the original text back, so an answer that is the escaped form
  of a text reaches synthesis as that text; and an answer containing \<^verbatim>\<open>&amp;\<close> reaches it
  with \<^verbatim>\<open>&\<close> in that place, the parts before and after decoded on their own.
\<close>

theorem translation_unescaped_before_synthesis:
  assumes "standard_entities (html5 env)"
  shows "(\<exists>w'. translate_text env t trl lt w = Inr w' \<and>
            synthesis_requests (trace w') =
              synthesis_requests (trace w) @ [(html_unescape (html5 env) (translate env t trl), lt)])
       \<and> html_unescape (html5 env) (html_escape s) = s
       \<and> (translate env t trl = html_escape s \<longrightarrow>
            (\<exists>w'. translate_text env t trl lt w = Inr w' \<and>
               synthesis_requests (trace w') = synthesis_requests (trace w) @ [(s, lt)]))
       \<and> html_unescape (html5 env) (pre @ lit ''&amp;'' @ post) =
            html_unescape (html5 env) pre @ lit ''&'' @ html_unescape (html5 env) post"
proof -
  have req: "\<exists>w'. translate_text env t trl lt w = Inr w' \<and>
            synthesis_requests (trace w') =
              synthesis_requests (trace w) @ [(html_unescape (html5 env) (translate env t trl), lt)]"
    using translate_text_requests [of env t trl lt w] by (auto simp add: translation_of_def)
  have rt: "html_unescape (html5 env) (html_escape s) = s"
    using assms by (rule html_unescape_escape)
  have "\<exists>w'. translate_text env t trl lt w = Inr w' \<and>
               synthesis_requests (trace w') = synthesis_requests (trace w) @ [(s, lt)]"
    if "translate env t trl = html_escape s"
    using req rt that by simp
  with req rt html_unescape_amp [OF assms] show ?thesis by blast
qed

theorem translation_unescaped_before_synthesis_witness:
  "standard_entities (html5 (test_env 2))
   \<and> synthesis_requests (trace (projr (translate_text (test_env 2) (lit ''a &amp; b'') (lit ''fr'')
        (lit ''fr-FR'') (world0 0 0)))) = [(lit ''a & b'', lit ''fr-FR'')]
   \<and> html_unescape (html5 (test_env 2)) (html_escape (lit ''<b>R&D</b>''))
        = lit ''<b>R&D</b>''"
proof -
  have h: "standard_entities (html5 (test_env 2))"
    by (simp add: standard_entities_def test_env_def entities_def lit_def py_ord_def)
  have tr: "translate (test_env 2) (lit ''a &amp; b'') (lit ''fr'') = lit ''a '' @ lit ''&amp;'' @ lit '' b''"
    by (simp add: test_env_def lit_def)
  have plain: "html_unescape (html5 (test_env 2)) (lit ''a '') = lit ''a ''"
    "html_unescape (html5 (test_env 2)) (lit '' b'') = lit '' b''"
    by (simp_all add: html_unescape_def lit_def py_ord_def)
  from translation_unescaped_before_synthesis [OF h, of "lit ''a &amp; b''" "lit ''fr''" "lit ''fr-FR''"
      "world0 0 0" "lit ''<b>R&D</b>''" "lit ''a ''" "lit '' b''"]
  obtain w' where "translate_text (test_env 2) (lit ''a &amp; b'') (lit ''fr'') (lit ''fr-FR'') (world0 0 0) = Inr w'"
    "synthesis_requests (trace w') = synthesis_requests (trace (world0 0 0)) @
       [(html_unescape (html5 (test_env 2)) (translate (test_env 2) (lit ''a &amp; b'') (lit ''fr'')), lit ''fr-FR'')]"
    and rt: "html_unescape (html5 (test_env 2)) (html_escape (lit ''<b>R&D</b>''))
        = lit ''<b>R&D</b>''"
    and amp: "html_unescape (html5 (test_env 2)) (lit ''a '' @ lit ''&amp;'' @ lit '' b'') =
       html_unescape (html5 (test_env 2)) (lit ''a '') @ lit ''&'' @ html_unescape (html5 (test_env 2)) (lit '' b'')"
    by blast
  then show ?thesis
    using h by (simp add: tr plain world0_def) (simp add: lit_def)
qed

section \<open>The audio generator\<close>

text \<open>
  Claim C2. Take any stream, any clock readings and any interleaving of the capture
  callback, the closing of the stream and the resumptions of one generator. The chunks
  the generator delivers, the \<^verbatim>\<open>data\<close> lists behind the joined units it yields taken
  one after the other, are a prefix of the enqueued chunks up to the first sentinel:
  in enqueue order, none twice, none from behind the sentinel. When the sentinel is
  met in the non-blocking drain the generator returns at once, without the chunks of
  that round.
\<close>

theorem delivered_is_prefix_up_to_sentinel:
  "prefix (delivered_chunks (run limit acts (generator s))) (until_sentinel (buff s @ puts acts))
   \<and> (buff s @ puts acts = map Some cs @ None # later \<longrightarrow>
        prefix (delivered_chunks (run limit acts (generator s))) cs)
   \<and> delivered_units (run limit acts (generator s)) = map join (batches (run limit acts (generator s)))
   \<and> delivered_chunks (run limit acts (generator s)) = concat (batches (run limit acts (generator s)))"
proof -
  have p: "prefix (delivered_chunks (run limit acts (generator s))) (until_sentinel (buff s @ puts acts))"
    using run_delivers_prefix [of limit acts "generator s"]
    by (auto simp add: generator_def delivered_chunks_def)
  then have "prefix (delivered_chunks (run limit acts (generator s))) cs"
    if "buff s @ puts acts = map Some cs @ None # later"
    using that by (simp add: until_sentinel_at)
  with p show ?thesis
    by (simp add: delivered_units_def delivered_chunks_def)
qed

theorem delivered_is_prefix_up_to_sentinel_witness:
  "buff (chunks_stream [[1], [2]]) @ puts sentinel_run = map Some [[1], [2], [3]] @ None # [Some [4]]
   \<and> prefix (delivered_chunks (run STREAMING_LIMIT sentinel_run (generator (chunks_stream [[1], [2]]))))
        [[1], [2], [3]]
   \<and> delivered_chunks (run STREAMING_LIMIT sentinel_run (generator (chunks_stream [[1], [2]]))) = [[1], [2]]
   \<and> buff (strm (run STREAMING_LIMIT sentinel_run (generator (chunks_stream [[1], [2]])))) = [Some [4]]"
proof -
  have h: "buff (chunks_stream [[1], [2]]) @ puts sentinel_run = map Some [[1], [2], [3]] @ None # [Some [4]]"
    by (simp add: chunks_stream_def sentinel_run_def)
  have e: "run STREAMING_LIMIT sentinel_run (generator (chunks_stream [[1], [2]])) =
     \<lparr>strm = \<lparr>closed_flag = False, start_time = 0, buff = [Some [4]]\<rparr>, gen = Finished,
      batches = [[[1], [2]]]\<rparr>"
    by (simp add: run_eval chunks_stream_def sentinel_run_def)
  from delivered_is_prefix_up_to_sentinel [of STREAMING_LIMIT sentinel_run "chunks_stream [[1], [2]]"
      "[[1], [2], [3]]" "[Some [4]]"] h
  have "prefix (delivered_chunks (run STREAMING_LIMIT sentinel_run (generator (chunks_stream [[1], [2]]))))
        [[1], [2], [3]]"
    by blast
  with h show ?thesis by (simp add: e delivered_chunks_def)
qed

text \<open>
  Claim C3. Take an open stream whose queue holds chunks only, a limit \<open>D\<close>, and any run
  in which chunks arrive and the generator is resumed with any clock readings. The
  session has ended exactly when some resumption at the top of the loop read a time
  more than \<open>D\<close> after the window's start; at every point before, the next resumption
  ends it exactly when it is at the top of the loop and reads such a time. The stream
  stays open, what was delivered followed by what is in the queue is what was
  enqueued, and with the session that \<^verbatim>\<open>main\<close> opens next over the same stream the
  chunks of both sessions, one after the other, followed by the queue are again what
  was enqueued: no chunk is lost and none is delivered twice.
\<close>

theorem session_ends_exactly_at_expiry:
  assumes "\<not> closed_flag s" "buff s = map Some cs" "list_all live acts" "list_all live acts2"
  shows "let g1 = run limit acts (generator s); g2 = run limit acts2 (generator (strm g1)) in
     (gen g1 = Finished \<longleftrightarrow>
        (\<exists>pre t1 t2 post. acts = pre @ Resume t1 t2 # post \<and>
           gen (run limit pre (generator s)) = LoopTop \<and> limit < t1 - start_time s))
     \<and> (gen g1 \<noteq> Finished \<longrightarrow>
          (gen (exec limit (Resume u1 u2) g1) = Finished \<longleftrightarrow>
             gen g1 = LoopTop \<and> limit < u1 - start_time s))
     \<and> \<not> closed_flag (strm g1)
     \<and> map Some (delivered_chunks g1) @ buff (strm g1) = buff s @ puts acts
     \<and> map Some (delivered_chunks g1 @ delivered_chunks g2) @ buff (strm g2) =
          buff s @ puts acts @ puts acts2"
proof -
  let ?g0 = "generator s"
  let ?g1 = "run limit acts ?g0"
  let ?g2 = "run limit acts2 (generator (strm ?g1))"
  have l0: "live_session ?g0" and n0: "gen ?g0 \<noteq> Finished" and d0: "delivered_chunks ?g0 = []"
    and s0: "strm ?g0 = s"
    using assms(1,2) by (auto simp add: live_session_def generator_def delivered_chunks_def)
  have l1: "live_session ?g1" using live_run(1) [OF l0 assms(3)] .
  have a: "gen ?g1 = Finished \<longleftrightarrow>
        (\<exists>pre t1 t2 post. acts = pre @ Resume t1 t2 # post \<and>
           gen (run limit pre ?g0) = LoopTop \<and> limit < t1 - start_time s)"
    using live_ends_iff [OF l0 assms(3) n0, of limit] by (simp only: s0)
  have b: "gen (exec limit (Resume u1 u2) ?g1) = Finished \<longleftrightarrow>
             gen ?g1 = LoopTop \<and> limit < u1 - start_time s" if nf: "gen ?g1 \<noteq> Finished"
    using live_step_finishes [OF l1 _ nf, of "Resume u1 u2" limit] live_run(3) [OF l0 assms(3) nf]
    by (simp add: s0)
  have c: "\<not> closed_flag (strm ?g1)"
    using l1 by (simp add: live_session_def)
  have d: "map Some (delivered_chunks ?g1) @ buff (strm ?g1) = buff s @ puts acts"
    using live_run(2) [OF l0 assms(3), of limit] by (simp add: d0 s0)
  have l1': "live_session (generator (strm ?g1))"
    using l1 by (simp add: live_session_def generator_def)
  have "map Some (delivered_chunks ?g2) @ buff (strm ?g2) = buff (strm ?g1) @ puts acts2"
    using live_run(2) [OF l1' assms(4), of limit] by (simp add: generator_def delivered_chunks_def)
  then have e: "map Some (delivered_chunks ?g1 @ delivered_chunks ?g2) @ buff (strm ?g2) =
          buff s @ puts acts @ puts acts2"
    using d by (metis append.assoc map_append)
  from a b c d e show ?thesis unfolding Let_def by blast
qed

theorem session_ends_exactly_at_expiry_witness:
  "gen (run STREAMING_LIMIT session_one (generator (chunks_stream [[1]]))) = Finished
   \<and> delivered_chunks (run STREAMING_LIMIT session_one (generator (chunks_stream [[1]]))) = [[1], [2]]
   \<and> delivered_chunks (run STREAMING_LIMIT session_two
        (generator (strm (run STREAMING_LIMIT session_one (generator (chunks_stream [[1]])))))) = [[3]]
   \<and> map Some ([[1], [2]] @ [[3]]) @ [] = buff (chunks_stream [[1]]) @ puts session_one @ puts session_two"
proof -
  have h: "\<not> closed_flag (chunks_stream [[1]])" "buff (chunks_stream [[1]]) = map Some [[1]]"
    "list_all live session_one" "list_all live session_two"
    by (simp_all add: chunks_stream_def session_one_def session_two_def)
  have e1: "run STREAMING_LIMIT session_one (generator (chunks_stream [[1]])) =
     \<lparr>strm = \<lparr>closed_flag = False, start_time = 55002, buff = [Some [3]]\<rparr>, gen = Finished,
      batches = [[[1]], [[2]]]\<rparr>"
    by (simp add: run_eval chunks_stream_def session_one_def)
  have e2: "run STREAMING_LIMIT session_two
       (generator \<lparr>closed_flag = False, start_time = 55002, buff = [Some [3]]\<rparr>) =
     \<lparr>strm = \<lparr>closed_flag = False, start_time = 55002, buff = []\<rparr>, gen = LoopTop, batches = [[[3]]]\<rparr>"
    by (simp add: run_eval session_two_def)
  show ?thesis
    using session_ends_exactly_at_expiry [OF h, of STREAMING_LIMIT]
    by (simp add: Let_def e1 e2 delivered_chunks_def) (simp add: session_two_def)
qed

end
